theory Spec2Isabelle
  imports Complex_Main "HOL-Library.Word" "HOL-Library.Signed_Division"
begin

unbundle bit_operations_syntax

section \<open>PicoMemPerf: PSRAM bring-up and memory benchmark\<close>

text \<open>
  A shallow embedding of \<^verbatim>\<open>PicoMemPerf.c\<close>. The target is the RP2350, where
  \<^verbatim>\<open>int\<close> and \<^verbatim>\<open>size_t\<close> have 32 bits: \<^verbatim>\<open>uint32_t\<close> and
  \<^verbatim>\<open>uint8_t\<close> values are words, and a C \<^verbatim>\<open>int\<close> is an \<^typ>\<open>int\<close> that every
  operation brings back into the 32-bit two's complement range.
\<close>

subsection \<open>C integer arithmetic\<close>

text \<open>
  \<open>i32\<close> is the value a 32-bit \<^verbatim>\<open>int\<close> holds after an operation whose
  mathematical result is \<open>x\<close> (two's complement wrap-around, also the conversion
  of a wider or unsigned value to \<^verbatim>\<open>int\<close>). C's \<^verbatim>\<open>/\<close> on signed operands
  truncates towards zero: that is \<open>sdiv\<close>.
\<close>

definition i32 :: "int \<Rightarrow> int" where
  "i32 x = signed_take_bit 31 x"

subsection \<open>Timing derivation (lines 99 to 114 of \<^verbatim>\<open>setup_psram\<close>)\<close>

definition max_psram_freq :: int where
  "max_psram_freq = 133000000"

text \<open>
  \<^verbatim>\<open>int clockDivider = (clock_hz + max_psram_freq - 1) / max_psram_freq;\<close>
  \<^verbatim>\<open>if (clockDivider == 1 && clock_hz > 100000000) clockDivider = 2;\<close>
  The device limit is an argument here, so that the formula can be stated for any
  limit; \<open>derive_timing\<close> passes the constant of the source.
\<close>

definition clockDivider_of :: "int \<Rightarrow> int \<Rightarrow> int" where
  "clockDivider_of max_freq clock_hz =
     (let clockDivider = i32 (i32 (i32 (clock_hz + max_freq) - 1) sdiv max_freq)
      in if clockDivider = 1 \<and> clock_hz > 100000000 then 2 else clockDivider)"

record timing =
  clockDivider :: int
  rxdelay :: int
  maxSelect :: int
  minDeselect :: int

text \<open>
  The four values the source derives from \<^verbatim>\<open>clock_hz\<close>. A division by zero
  (undefined in C) is the result \<open>None\<close>. \<^verbatim>\<open>clock_period_fs\<close> is computed in
  \<^verbatim>\<open>long long\<close> and then stored in an \<^verbatim>\<open>int\<close>.
\<close>

definition derive_timing :: "int \<Rightarrow> timing option" where
  "derive_timing clock_hz =
     (let clockDivider = clockDivider_of max_psram_freq clock_hz in
      if clockDivider = 0 \<or> clock_hz = 0 then None
      else
        let rxdelay = (if i32 (clock_hz sdiv clockDivider) > 100000000
                       then i32 (clockDivider + 1) else clockDivider);
            clock_period_fs = i32 (1000000000000000 sdiv clock_hz)
        in if clock_period_fs = 0 then None
           else Some \<lparr>clockDivider = clockDivider,
                  rxdelay = rxdelay,
                  maxSelect = i32 ((125 * 1000000) sdiv clock_period_fs),
                  minDeselect =
                    i32 (i32 (i32 (18 * 1000000 + i32 (clock_period_fs - 1)) sdiv clock_period_fs)
                         - i32 (i32 (clockDivider + 1) sdiv 2))\<rparr>)"

subsection \<open>Device capacity (lines 251 to 264 of \<^verbatim>\<open>setup_psram\<close>)\<close>

text \<open>
  \<^verbatim>\<open>psram_size = 1024 * 1024; uint8_t size_id = eid >> 5;\<close> followed by the
  chain of multiplications. \<^verbatim>\<open>size_t\<close> is a 32-bit word.
\<close>

definition psram_size_of :: "8 word \<Rightarrow> 32 word" where
  "psram_size_of eid =
     (let psram_size = 1024 * 1024;
          size_id = drop_bit 5 eid
      in if eid = 0x26 \<or> size_id = 2 then psram_size * 8
         else if size_id = 0 then psram_size * 1
         else if size_id = 1 then psram_size * 4
         else psram_size)"

subsection \<open>The benchmark loops (\<^verbatim>\<open>memory_test\<close>, lines 339 to 407)\<close>

text \<open>
  The buffer is the list of its words; an access at an index the list does not have is
  the result \<open>Inl (OutOfBounds idx)\<close>. The state of the loops holds the buffer, the
  accumulator \<^verbatim>\<open>value\<close> (here \<open>val\<close>), the generator's \<^verbatim>\<open>seed_value\<close> and, as a record
  of the effect, the indices accessed so far in order (\<open>touched\<close>).
\<close>

datatype fault = OutOfBounds nat

record bench =
  buf :: "32 word list"
  val :: "32 word"
  seed_value :: "32 word"
  touched :: "nat list"

text \<open>
  The inner loops, \<^verbatim>\<open>for (int i = 0; i < buffer_size; i++)\<close>. The comparison converts
  \<^verbatim>\<open>i\<close> to unsigned, so the counter runs over the naturals below \<^verbatim>\<open>buffer_size\<close>.
  (The increment of an \<^verbatim>\<open>int\<close> overflows only past \<open>2^31 - 1\<close>, and an array of
  32-bit words in a 32-bit address space has at most \<open>2^30\<close> of them.) All arithmetic on
  \<^verbatim>\<open>value\<close> and \<^verbatim>\<open>seed_value\<close> is \<^verbatim>\<open>uint32_t\<close> arithmetic and wraps around;
  \<^verbatim>\<open>buffer[idx] = value++\<close> stores the value before the increment.
\<close>

function rnd_read_pass :: "32 word \<Rightarrow> nat \<Rightarrow> bench \<Rightarrow> fault + bench" where
  "rnd_read_pass buffer_size i s =
     (if i < unat buffer_size then
        let seed = seed_value s * 1103515245 + 12345;
            idx = unat (seed AND (buffer_size - 1))
        in if idx < length (buf s)
           then rnd_read_pass buffer_size (Suc i)
                  (s\<lparr>seed_value := seed, val := val s + buf s ! idx,
                     touched := touched s @ [idx]\<rparr>)
           else Inl (OutOfBounds idx)
      else Inr s)"
  by pat_completeness auto
termination
  by (relation "measure (\<lambda>(buffer_size, i, s). unat buffer_size - i)") auto

function rnd_write_pass :: "32 word \<Rightarrow> nat \<Rightarrow> bench \<Rightarrow> fault + bench" where
  "rnd_write_pass buffer_size i s =
     (if i < unat buffer_size then
        let seed = seed_value s * 1103515245 + 12345;
            idx = unat (seed AND (buffer_size - 1))
        in if idx < length (buf s)
           then rnd_write_pass buffer_size (Suc i)
                  (s\<lparr>seed_value := seed, buf := (buf s)[idx := val s], val := val s + 1,
                     touched := touched s @ [idx]\<rparr>)
           else Inl (OutOfBounds idx)
      else Inr s)"
  by pat_completeness auto
termination
  by (relation "measure (\<lambda>(buffer_size, i, s). unat buffer_size - i)") auto

function seq_read_pass :: "32 word \<Rightarrow> nat \<Rightarrow> bench \<Rightarrow> fault + bench" where
  "seq_read_pass buffer_size i s =
     (if i < unat buffer_size then
        if i < length (buf s)
        then seq_read_pass buffer_size (Suc i)
               (s\<lparr>val := val s + buf s ! i, touched := touched s @ [i]\<rparr>)
        else Inl (OutOfBounds i)
      else Inr s)"
  by pat_completeness auto
termination
  by (relation "measure (\<lambda>(buffer_size, i, s). unat buffer_size - i)") auto

function seq_write_pass :: "32 word \<Rightarrow> nat \<Rightarrow> bench \<Rightarrow> fault + bench" where
  "seq_write_pass buffer_size i s =
     (if i < unat buffer_size then
        if i < length (buf s)
        then seq_write_pass buffer_size (Suc i)
               (s\<lparr>buf := (buf s)[i := val s], val := val s + 1,
                  touched := touched s @ [i]\<rparr>)
        else Inl (OutOfBounds i)
      else Inr s)"
  by pat_completeness auto
termination
  by (relation "measure (\<lambda>(buffer_size, i, s). unat buffer_size - i)") auto

text \<open>
  The outer loop, \<^verbatim>\<open>for (int loop = 0; loop < loop_count; loop++)\<close>, runs its body
  \<^verbatim>\<open>loop_count\<close> times (not at all when \<^verbatim>\<open>loop_count\<close> is not positive); the body does
  not read \<^verbatim>\<open>loop\<close>.
\<close>

fun passes :: "(bench \<Rightarrow> fault + bench) \<Rightarrow> nat \<Rightarrow> bench \<Rightarrow> fault + bench" where
  "passes body 0 s = Inr s"
| "passes body (Suc n) s =
     (case body s of Inl f \<Rightarrow> Inl f | Inr s' \<Rightarrow> passes body n s')"

text \<open>\<^verbatim>\<open>int loop_count = 100 * loop_scale;\<close>\<close>

definition loop_count_of :: "int \<Rightarrow> int" where
  "loop_count_of loop_scale = i32 (100 * loop_scale)"

text \<open>
  \<^verbatim>\<open>s_value = value;\<close> (line 404). \<^verbatim>\<open>s_value\<close> is a global of the program that is
  not \<^verbatim>\<open>static\<close>, so a caller can pass a buffer that contains it. \<open>s_value_at\<close>
  says where: \<open>Some k\<close> when word \<open>k\<close> of the buffer is \<^verbatim>\<open>s_value\<close>, \<open>None\<close>
  when \<^verbatim>\<open>s_value\<close> lies outside the buffer. In the first case the store changes the
  buffer. (During the loops \<^verbatim>\<open>s_value\<close> is only accessed as that word of the buffer.)
\<close>

definition store_s_value :: "nat option \<Rightarrow> bench \<Rightarrow> bench" where
  "store_s_value s_value_at s =
     (case s_value_at of
        None \<Rightarrow> s
      | Some k \<Rightarrow> if k < length (buf s) then s\<lparr>buf := (buf s)[k := val s]\<rparr> else s)"

text \<open>
  \<^verbatim>\<open>memory_test\<close> itself. \<open>start\<close> and \<open>finish\<close> are the two readings of
  \<^verbatim>\<open>time_us_64()\<close>; the result is \<^verbatim>\<open>delta\<close> and the final state, whose \<open>val\<close> is
  the value of \<^verbatim>\<open>s_value\<close> after the call.
\<close>

definition memory_test ::
  "32 word list \<Rightarrow> 32 word \<Rightarrow> int \<Rightarrow> bool \<Rightarrow> bool \<Rightarrow> nat option \<Rightarrow> 64 word \<Rightarrow> 64 word
     \<Rightarrow> fault + (64 word \<times> bench)" where
  "memory_test buffer buffer_size loop_scale read rnd s_value_at start finish =
     (let loop_count = loop_count_of loop_scale;
          s0 = \<lparr>buf = buffer, val = 0, seed_value = 0xDEADBEEF, touched = []\<rparr>;
          body = (if rnd
                  then (if read then rnd_read_pass buffer_size 0
                        else rnd_write_pass buffer_size 0)
                  else (if read then seq_read_pass buffer_size 0
                        else seq_write_pass buffer_size 0))
      in case passes body (nat loop_count) s0 of
           Inl f \<Rightarrow> Inl f
         | Inr s \<Rightarrow> Inr (finish - start, store_s_value s_value_at s))"

text \<open>
  The generator as the specification words it: from a seed, each step replaces the seed
  by \<open>seed * 1103515245 + 12345\<close> modulo \<open>2^32\<close> and yields the index
  \<open>seed AND (sizeWords - 1)\<close>; \<open>N\<close> steps yield \<open>N\<close> indices.
\<close>

fun lcg_index_sequence :: "32 word \<Rightarrow> 32 word \<Rightarrow> nat \<Rightarrow> nat list" where
  "lcg_index_sequence seed sizeWords 0 = []"
| "lcg_index_sequence seed sizeWords (Suc N) =
     (let seed' = seed * 1103515245 + 12345
      in unat (seed' AND (sizeWords - 1)) # lcg_index_sequence seed' sizeWords N)"

fun lcg_seed :: "32 word \<Rightarrow> nat \<Rightarrow> 32 word" where
  "lcg_seed seed 0 = seed"
| "lcg_seed seed (Suc N) = lcg_seed (seed * 1103515245 + 12345) N"

subsection \<open>Registers, hardware and machine state of \<^verbatim>\<open>setup_psram\<close>\<close>

text \<open>
  The registers the source reads and writes: \<^verbatim>\<open>qmi_hw->direct_csr\<close>,
  \<^verbatim>\<open>direct_tx\<close>, \<^verbatim>\<open>direct_rx\<close>, the five registers of \<^verbatim>\<open>qmi_hw->m[1]\<close> and
  \<^verbatim>\<open>xip_ctrl_hw->ctrl\<close>.
\<close>

datatype reg =
    DIRECT_CSR | DIRECT_TX | DIRECT_RX
  | M1_TIMING | M1_RFMT | M1_RCMD | M1_WFMT | M1_WCMD
  | XIP_CTRL

text \<open>The lines the program prints, by format string.\<close>

datatype line =
    TimingLine int int int
  | InvalidPsramId "8 word"
  | ValidPsramId "8 word"
  | PsramIdLine "8 word" "8 word"
  | PassedMemTest string
  | FailedMemTest string
  | SkippedMemTest string

datatype event =
    Read reg "32 word"
  | Write reg "32 word"
  | GpioSetFunction "32 word" "32 word"
  | Print line

text \<open>
  The registers are volatile: what a read returns is the hardware's answer, an input of
  the model. \<open>csr_val e k\<close> is the value of the \<open>k\<close>-th read of \<^verbatim>\<open>direct_csr\<close>,
  \<open>rx_val e k\<close> that of the \<open>k\<close>-th read of \<^verbatim>\<open>direct_rx\<close>.
\<close>

record hw =
  clk_sys_hz :: "32 word"
  csr_val :: "nat \<Rightarrow> 32 word"
  rx_val :: "nat \<Rightarrow> 32 word"
  xip_ctrl_val :: "32 word"

text \<open>
  The machine state: whether interrupts are enabled, how many reads of the two volatile
  input registers have happened, and the trace of everything the program did to the
  outside, each event with the interrupt-enable flag at the moment it happened.
\<close>

record machine =
  irq :: bool
  csr_reads :: nat
  rx_reads :: nat
  trace :: "(bool \<times> event) list"

text \<open>
  The constants of the SDK's hardware headers that \<^verbatim>\<open>setup_psram\<close> uses. The headers
  are not part of the repository, so the constants are a parameter of the model.
\<close>

record sdk =
  QMI_DIRECT_CSR_CLKDIV_LSB :: nat
  QMI_DIRECT_CSR_EN_BITS :: "32 word"
  QMI_DIRECT_CSR_BUSY_BITS :: "32 word"
  QMI_DIRECT_CSR_ASSERT_CS1N_BITS :: "32 word"
  QMI_DIRECT_CSR_TXEMPTY_BITS :: "32 word"
  QMI_DIRECT_TX_OE_BITS :: "32 word"
  QMI_DIRECT_TX_IWIDTH_VALUE_Q :: "32 word"
  QMI_DIRECT_TX_IWIDTH_LSB :: nat
  QMI_M1_TIMING_PAGEBREAK_VALUE_1024 :: "32 word"
  QMI_M1_TIMING_PAGEBREAK_LSB :: nat
  QMI_M1_TIMING_COOLDOWN_LSB :: nat
  QMI_M1_TIMING_RXDELAY_LSB :: nat
  QMI_M1_TIMING_MAX_SELECT_LSB :: nat
  QMI_M1_TIMING_MIN_DESELECT_LSB :: nat
  QMI_M1_TIMING_CLKDIV_LSB :: nat
  QMI_M1_RFMT_PREFIX_WIDTH_VALUE_Q :: "32 word"
  QMI_M1_RFMT_PREFIX_WIDTH_LSB :: nat
  QMI_M1_RFMT_ADDR_WIDTH_VALUE_Q :: "32 word"
  QMI_M1_RFMT_ADDR_WIDTH_LSB :: nat
  QMI_M1_RFMT_SUFFIX_WIDTH_VALUE_Q :: "32 word"
  QMI_M1_RFMT_SUFFIX_WIDTH_LSB :: nat
  QMI_M1_RFMT_DUMMY_WIDTH_VALUE_Q :: "32 word"
  QMI_M1_RFMT_DUMMY_WIDTH_LSB :: nat
  QMI_M1_RFMT_DUMMY_LEN_VALUE_24 :: "32 word"
  QMI_M1_RFMT_DUMMY_LEN_LSB :: nat
  QMI_M1_RFMT_DATA_WIDTH_VALUE_Q :: "32 word"
  QMI_M1_RFMT_DATA_WIDTH_LSB :: nat
  QMI_M1_RFMT_PREFIX_LEN_VALUE_8 :: "32 word"
  QMI_M1_RFMT_PREFIX_LEN_LSB :: nat
  QMI_M1_RFMT_SUFFIX_LEN_VALUE_NONE :: "32 word"
  QMI_M1_RFMT_SUFFIX_LEN_LSB :: nat
  QMI_M1_WFMT_PREFIX_WIDTH_VALUE_Q :: "32 word"
  QMI_M1_WFMT_PREFIX_WIDTH_LSB :: nat
  QMI_M1_WFMT_ADDR_WIDTH_VALUE_Q :: "32 word"
  QMI_M1_WFMT_ADDR_WIDTH_LSB :: nat
  QMI_M1_WFMT_SUFFIX_WIDTH_VALUE_Q :: "32 word"
  QMI_M1_WFMT_SUFFIX_WIDTH_LSB :: nat
  QMI_M1_WFMT_DUMMY_WIDTH_VALUE_Q :: "32 word"
  QMI_M1_WFMT_DUMMY_WIDTH_LSB :: nat
  QMI_M1_WFMT_DUMMY_LEN_VALUE_NONE :: "32 word"
  QMI_M1_WFMT_DUMMY_LEN_LSB :: nat
  QMI_M1_WFMT_DATA_WIDTH_VALUE_Q :: "32 word"
  QMI_M1_WFMT_DATA_WIDTH_LSB :: nat
  QMI_M1_WFMT_PREFIX_LEN_VALUE_8 :: "32 word"
  QMI_M1_WFMT_PREFIX_LEN_LSB :: nat
  QMI_M1_WFMT_SUFFIX_LEN_VALUE_NONE :: "32 word"
  QMI_M1_WFMT_SUFFIX_LEN_LSB :: nat
  XIP_CTRL_WRITABLE_M1_BITS :: "32 word"
  GPIO_FUNC_XIP_CS1 :: "32 word"

text \<open>The constants the source defines itself (lines 64 to 75).\<close>

definition RP2350_XIP_CSI_PIN :: "32 word" where "RP2350_XIP_CSI_PIN = 47"
definition PSRAM_CMD_QUAD_END :: "32 word" where "PSRAM_CMD_QUAD_END = 0xF5"
definition PSRAM_CMD_QUAD_ENABLE :: "32 word" where "PSRAM_CMD_QUAD_ENABLE = 0x35"
definition PSRAM_CMD_READ_ID :: "32 word" where "PSRAM_CMD_READ_ID = 0x9F"
definition PSRAM_CMD_RSTEN :: "32 word" where "PSRAM_CMD_RSTEN = 0x66"
definition PSRAM_CMD_RST :: "32 word" where "PSRAM_CMD_RST = 0x99"
definition PSRAM_CMD_QUAD_READ :: "32 word" where "PSRAM_CMD_QUAD_READ = 0xEB"
definition PSRAM_CMD_QUAD_WRITE :: "32 word" where "PSRAM_CMD_QUAD_WRITE = 0x38"
definition PSRAM_CMD_NOOP :: "32 word" where "PSRAM_CMD_NOOP = 0xFF"
definition PSRAM_CMD_LINEAR_TOGGLE :: "32 word" where "PSRAM_CMD_LINEAR_TOGGLE = 0xC0"
definition PSRAM_ID :: "8 word" where "PSRAM_ID = 0x5D"

text \<open>
  How a run of \<^verbatim>\<open>setup_psram\<close> ends: it returns a value (\<open>Done\<close>), or it stops in
  the state it reached, in a polling loop that the hardware never releases (\<open>Hang\<close>; in
  the model, a loop that has polled \<open>fuel\<close> times) or at a division by zero.
\<close>

datatype stop = Hang | DivideByZero

datatype 'a outcome = Done 'a machine | Stopped stop machine

fun final :: "'a outcome \<Rightarrow> machine" where
  "final (Done a s) = s"
| "final (Stopped w s) = s"

definition and_then :: "'a outcome \<Rightarrow> ('a \<Rightarrow> machine \<Rightarrow> 'b outcome) \<Rightarrow> 'b outcome" where
  "and_then r f = (case r of Done a s \<Rightarrow> f a s | Stopped w s \<Rightarrow> Stopped w s)"

lemma and_then_cong [fundef_cong]:
  "r = r' \<Longrightarrow> (\<And>a s. r' = Done a s \<Longrightarrow> f a s = f' a s) \<Longrightarrow> and_then r f = and_then r' f'"
  by (auto simp: and_then_def split: outcome.splits)

subsection \<open>Register accesses and interrupts\<close>

definition log_ev :: "event \<Rightarrow> machine \<Rightarrow> machine" where
  "log_ev ev s = s\<lparr>trace := trace s @ [(irq s, ev)]\<rparr>"

definition write_reg :: "reg \<Rightarrow> 32 word \<Rightarrow> machine \<Rightarrow> machine" where
  "write_reg r v s = log_ev (Write r v) s"

definition read_csr :: "hw \<Rightarrow> machine \<Rightarrow> 32 word \<times> machine" where
  "read_csr e s =
     (let v = csr_val e (csr_reads s)
      in (v, log_ev (Read DIRECT_CSR v) (s\<lparr>csr_reads := Suc (csr_reads s)\<rparr>)))"

definition read_rx :: "hw \<Rightarrow> machine \<Rightarrow> 32 word \<times> machine" where
  "read_rx e s =
     (let v = rx_val e (rx_reads s)
      in (v, log_ev (Read DIRECT_RX v) (s\<lparr>rx_reads := Suc (rx_reads s)\<rparr>)))"

text \<open>\<^verbatim>\<open>qmi_hw->direct_csr |= bits\<close> and \<^verbatim>\<open>qmi_hw->direct_csr &= ~bits\<close>: a read, then a write.\<close>

definition csr_set_bits :: "hw \<Rightarrow> 32 word \<Rightarrow> machine \<Rightarrow> machine" where
  "csr_set_bits e bits s = (case read_csr e s of (v, s') \<Rightarrow> write_reg DIRECT_CSR (v OR bits) s')"

definition csr_clear_bits :: "hw \<Rightarrow> 32 word \<Rightarrow> machine \<Rightarrow> machine" where
  "csr_clear_bits e bits s =
     (case read_csr e s of (v, s') \<Rightarrow> write_reg DIRECT_CSR (v AND NOT bits) s')"

text \<open>
  Modelled from the spec: \<^verbatim>\<open>save_and_disable_interrupts\<close> and \<^verbatim>\<open>restore_interrupts\<close>
  are functions of the SDK, not of this repository. The specification has the bring-up
  run in a critical section with interrupts globally disabled and has them restored to
  their saved state on exit: the first function disables interrupts and returns the
  state they were in, the second puts that state back.
\<close>

definition save_and_disable_interrupts :: "machine \<Rightarrow> bool \<times> machine" where
  "save_and_disable_interrupts s = (irq s, s\<lparr>irq := False\<rparr>)"

definition restore_interrupts :: "bool \<Rightarrow> machine \<Rightarrow> machine" where
  "restore_interrupts status s = s\<lparr>irq := status\<rparr>"

text \<open>
  The polling loops \<^verbatim>\<open>while ((qmi_hw->direct_csr & BUSY) != 0) {}\<close> and
  \<^verbatim>\<open>while ((qmi_hw->direct_csr & TXEMPTY) == 0) {}\<close>. Each turn reads the register;
  \<open>fuel\<close> bounds the number of turns.
\<close>

fun wait_while_busy :: "nat \<Rightarrow> sdk \<Rightarrow> hw \<Rightarrow> machine \<Rightarrow> unit outcome" where
  "wait_while_busy 0 c e s = Stopped Hang s"
| "wait_while_busy (Suc fuel) c e s =
     (case read_csr e s of
        (v, s') \<Rightarrow> if v AND QMI_DIRECT_CSR_BUSY_BITS c \<noteq> 0
                   then wait_while_busy fuel c e s' else Done () s')"

fun wait_until_txempty :: "nat \<Rightarrow> sdk \<Rightarrow> hw \<Rightarrow> machine \<Rightarrow> unit outcome" where
  "wait_until_txempty 0 c e s = Stopped Hang s"
| "wait_until_txempty (Suc fuel) c e s =
     (case read_csr e s of
        (v, s') \<Rightarrow> if v AND QMI_DIRECT_CSR_TXEMPTY_BITS c = 0
                   then wait_until_txempty fuel c e s' else Done () s')"

subsection \<open>\<^verbatim>\<open>setup_psram\<close> (lines 93 to 271)\<close>

text \<open>
  The loop that reads the id, \<^verbatim>\<open>for (size_t i = 0; i < 7; i++)\<close> (lines 142 to 170):
  byte 5 of the answer is \<^verbatim>\<open>kgd\<close>, byte 6 is \<^verbatim>\<open>eid\<close>, both truncated to
  \<^verbatim>\<open>uint8_t\<close>.
\<close>

function read_id_loop ::
  "nat \<Rightarrow> sdk \<Rightarrow> hw \<Rightarrow> nat \<Rightarrow> 8 word \<Rightarrow> 8 word \<Rightarrow> machine \<Rightarrow> (8 word \<times> 8 word) outcome" where
  "read_id_loop fuel c e i kgd eid s =
     (if i < 7 then
        let s1 = write_reg DIRECT_TX (if i = 0 then PSRAM_CMD_READ_ID else PSRAM_CMD_NOOP) s
        in and_then (wait_until_txempty fuel c e s1) (\<lambda>_ s2.
           and_then (wait_while_busy fuel c e s2) (\<lambda>_ s3.
             case read_rx e s3 of
               (v, s4) \<Rightarrow>
                 read_id_loop fuel c e (Suc i)
                   (if i = 5 then ucast v else kgd)
                   (if i = 6 then ucast v else eid) s4))
      else Done (kgd, eid) s)"
  by pat_completeness auto
termination
  by (relation "measure (\<lambda>(fuel, c, e, i, kgd, eid, s). 7 - i)") auto

text \<open>
  The first critical section without its bracket (lines 121 to 173): enter direct mode,
  leave quad mode, read the id, leave direct mode.
\<close>

definition read_id :: "nat \<Rightarrow> sdk \<Rightarrow> hw \<Rightarrow> machine \<Rightarrow> (8 word \<times> 8 word) outcome" where
  "read_id fuel c e s0 =
     (let s1 = write_reg DIRECT_CSR
                 (push_bit (QMI_DIRECT_CSR_CLKDIV_LSB c) 30 OR QMI_DIRECT_CSR_EN_BITS c) s0
      in and_then (wait_while_busy fuel c e s1) (\<lambda>_ s2.
           let s3 = csr_set_bits e (QMI_DIRECT_CSR_ASSERT_CS1N_BITS c) s2;
               s4 = write_reg DIRECT_TX
                      (QMI_DIRECT_TX_OE_BITS c
                         OR push_bit (QMI_DIRECT_TX_IWIDTH_LSB c) (QMI_DIRECT_TX_IWIDTH_VALUE_Q c)
                         OR PSRAM_CMD_QUAD_END) s3
           in and_then (wait_while_busy fuel c e s4) (\<lambda>_ s5.
                let s6 = snd (read_rx e s5);
                    s7 = csr_clear_bits e (QMI_DIRECT_CSR_ASSERT_CS1N_BITS c) s6;
                    s8 = csr_set_bits e (QMI_DIRECT_CSR_ASSERT_CS1N_BITS c) s7
                in and_then (read_id_loop fuel c e 0 0 0 s8) (\<lambda>(kgd, eid) s9.
                     Done (kgd, eid)
                       (csr_clear_bits e
                          (QMI_DIRECT_CSR_ASSERT_CS1N_BITS c OR QMI_DIRECT_CSR_EN_BITS c) s9)))))"

text \<open>
  The loop that sends RESETEN, RESET, quad enable and linear toggle,
  \<^verbatim>\<open>for (uint8_t i = 0; i < 4; i++)\<close> (lines 192 to 220). The twenty \<^verbatim>\<open>nop\<close>s
  change nothing in the state.
\<close>

function command_loop :: "nat \<Rightarrow> sdk \<Rightarrow> hw \<Rightarrow> nat \<Rightarrow> machine \<Rightarrow> unit outcome" where
  "command_loop fuel c e i s =
     (if i < 4 then
        let s1 = csr_set_bits e (QMI_DIRECT_CSR_ASSERT_CS1N_BITS c) s;
            s2 = write_reg DIRECT_TX
                   (if i = 0 then PSRAM_CMD_RSTEN
                    else if i = 1 then PSRAM_CMD_RST
                    else if i = 2 then PSRAM_CMD_QUAD_ENABLE
                    else PSRAM_CMD_LINEAR_TOGGLE) s1
        in and_then (wait_while_busy fuel c e s2) (\<lambda>_ s3.
             let s4 = csr_clear_bits e (QMI_DIRECT_CSR_ASSERT_CS1N_BITS c) s3;
                 s5 = snd (read_rx e s4)
             in command_loop fuel c e (Suc i) s5)
      else Done () s)"
  by pat_completeness auto
termination
  by (relation "measure (\<lambda>(fuel, c, e, i, s). 4 - i)") auto

text \<open>The values written to the timing and format registers (lines 224 to 248).\<close>

definition m1_timing_value :: "sdk \<Rightarrow> timing \<Rightarrow> 32 word" where
  "m1_timing_value c t =
     push_bit (QMI_M1_TIMING_PAGEBREAK_LSB c) (QMI_M1_TIMING_PAGEBREAK_VALUE_1024 c)
     OR push_bit (QMI_M1_TIMING_COOLDOWN_LSB c) 1
     OR push_bit (QMI_M1_TIMING_RXDELAY_LSB c) (word_of_int (rxdelay t))
     OR push_bit (QMI_M1_TIMING_MAX_SELECT_LSB c) (word_of_int (maxSelect t))
     OR push_bit (QMI_M1_TIMING_MIN_DESELECT_LSB c) (word_of_int (minDeselect t))
     OR push_bit (QMI_M1_TIMING_CLKDIV_LSB c) (word_of_int (clockDivider t))"

definition m1_rfmt_value :: "sdk \<Rightarrow> 32 word" where
  "m1_rfmt_value c =
     push_bit (QMI_M1_RFMT_PREFIX_WIDTH_LSB c) (QMI_M1_RFMT_PREFIX_WIDTH_VALUE_Q c)
     OR push_bit (QMI_M1_RFMT_ADDR_WIDTH_LSB c) (QMI_M1_RFMT_ADDR_WIDTH_VALUE_Q c)
     OR push_bit (QMI_M1_RFMT_SUFFIX_WIDTH_LSB c) (QMI_M1_RFMT_SUFFIX_WIDTH_VALUE_Q c)
     OR push_bit (QMI_M1_RFMT_DUMMY_WIDTH_LSB c) (QMI_M1_RFMT_DUMMY_WIDTH_VALUE_Q c)
     OR push_bit (QMI_M1_RFMT_DUMMY_LEN_LSB c) (QMI_M1_RFMT_DUMMY_LEN_VALUE_24 c)
     OR push_bit (QMI_M1_RFMT_DATA_WIDTH_LSB c) (QMI_M1_RFMT_DATA_WIDTH_VALUE_Q c)
     OR push_bit (QMI_M1_RFMT_PREFIX_LEN_LSB c) (QMI_M1_RFMT_PREFIX_LEN_VALUE_8 c)
     OR push_bit (QMI_M1_RFMT_SUFFIX_LEN_LSB c) (QMI_M1_RFMT_SUFFIX_LEN_VALUE_NONE c)"

definition m1_wfmt_value :: "sdk \<Rightarrow> 32 word" where
  "m1_wfmt_value c =
     push_bit (QMI_M1_WFMT_PREFIX_WIDTH_LSB c) (QMI_M1_WFMT_PREFIX_WIDTH_VALUE_Q c)
     OR push_bit (QMI_M1_WFMT_ADDR_WIDTH_LSB c) (QMI_M1_WFMT_ADDR_WIDTH_VALUE_Q c)
     OR push_bit (QMI_M1_WFMT_SUFFIX_WIDTH_LSB c) (QMI_M1_WFMT_SUFFIX_WIDTH_VALUE_Q c)
     OR push_bit (QMI_M1_WFMT_DUMMY_WIDTH_LSB c) (QMI_M1_WFMT_DUMMY_WIDTH_VALUE_Q c)
     OR push_bit (QMI_M1_WFMT_DUMMY_LEN_LSB c) (QMI_M1_WFMT_DUMMY_LEN_VALUE_NONE c)
     OR push_bit (QMI_M1_WFMT_DATA_WIDTH_LSB c) (QMI_M1_WFMT_DATA_WIDTH_VALUE_Q c)
     OR push_bit (QMI_M1_WFMT_PREFIX_LEN_LSB c) (QMI_M1_WFMT_PREFIX_LEN_VALUE_8 c)
     OR push_bit (QMI_M1_WFMT_SUFFIX_LEN_LSB c) (QMI_M1_WFMT_SUFFIX_LEN_VALUE_NONE c)"

text \<open>
  The second critical section without its bracket, up to the write of \<^verbatim>\<open>wcmd\<close>
  (lines 184 to 249): enter direct mode, send the four commands, leave direct mode,
  program the map-mode registers of device 1.
\<close>

definition enable_quad_and_map :: "nat \<Rightarrow> sdk \<Rightarrow> hw \<Rightarrow> timing \<Rightarrow> machine \<Rightarrow> unit outcome" where
  "enable_quad_and_map fuel c e t s0 =
     (let s1 = write_reg DIRECT_CSR
                 (push_bit (QMI_DIRECT_CSR_CLKDIV_LSB c) 30 OR QMI_DIRECT_CSR_EN_BITS c) s0
      in and_then (wait_while_busy fuel c e s1) (\<lambda>_ s2.
         and_then (command_loop fuel c e 0 s2) (\<lambda>_ s3.
           let s4 = csr_clear_bits e
                      (QMI_DIRECT_CSR_ASSERT_CS1N_BITS c OR QMI_DIRECT_CSR_EN_BITS c) s3;
               s5 = write_reg M1_TIMING (m1_timing_value c t) s4;
               s6 = write_reg M1_RFMT (m1_rfmt_value c) s5;
               s7 = write_reg M1_RCMD PSRAM_CMD_QUAD_READ s6;
               s8 = write_reg M1_WFMT (m1_wfmt_value c) s7;
               s9 = write_reg M1_WCMD PSRAM_CMD_QUAD_WRITE s8
           in Done () s9)))"

text \<open>
  \<^verbatim>\<open>setup_psram\<close>. \<^verbatim>\<open>clock_get_hz\<close> returns a \<^verbatim>\<open>uint32_t\<close>, which the source
  stores in an \<^verbatim>\<open>int\<close>. The result is \<^verbatim>\<open>psram_size\<close>.
\<close>

definition setup_psram :: "nat \<Rightarrow> sdk \<Rightarrow> hw \<Rightarrow> 32 word \<Rightarrow> machine \<Rightarrow> 32 word outcome" where
  "setup_psram fuel c e psram_cs_pin s0 =
     (let s1 = log_ev (GpioSetFunction psram_cs_pin (GPIO_FUNC_XIP_CS1 c)) s0;
          psram_size = 0;
          clock_hz = sint (clk_sys_hz e)
      in case derive_timing clock_hz of
           None \<Rightarrow> Stopped DivideByZero s1
         | Some t \<Rightarrow>
             let s2 = log_ev (Print (TimingLine (maxSelect t) (minDeselect t) (clockDivider t))) s1;
                 (intr_stash, s3) = save_and_disable_interrupts s2
             in and_then (read_id fuel c e s3) (\<lambda>(kgd, eid) s4.
                  let s5 = restore_interrupts intr_stash s4
                  in if kgd \<noteq> PSRAM_ID
                     then Done psram_size (log_ev (Print (InvalidPsramId kgd)) s5)
                     else
                       let s6 = log_ev (Print (ValidPsramId kgd)) s5;
                           (intr_stash, s7) = save_and_disable_interrupts s6
                       in and_then (enable_quad_and_map fuel c e t s7) (\<lambda>_ s8.
                            let psram_size = psram_size_of eid;
                                v = xip_ctrl_val e;
                                s9 = log_ev (Read XIP_CTRL v) s8;
                                s10 = write_reg XIP_CTRL (v OR XIP_CTRL_WRITABLE_M1_BITS c) s9;
                                s11 = restore_interrupts intr_stash s10;
                                s12 = log_ev (Print (PsramIdLine kgd eid)) s11
                            in Done psram_size s12)))"

text \<open>
  Classes of events. Every access to a register of the bus controller (the QMI) or of the
  XIP control block touches the bus controller; \<^verbatim>\<open>gpio_set_function\<close> selects a pin
  function in the pin multiplexer and a print goes to the console, so they do not. The
  writes of the per-device timing, format and command registers and of the write-enable
  flag are the map-mode configuration.
\<close>

fun touches_bus :: "event \<Rightarrow> bool" where
  "touches_bus (Read r v) = True"
| "touches_bus (Write r v) = True"
| "touches_bus (GpioSetFunction pin fn) = False"
| "touches_bus (Print l) = False"

fun direct_reg :: "reg \<Rightarrow> bool" where
  "direct_reg DIRECT_CSR = True"
| "direct_reg DIRECT_TX = True"
| "direct_reg DIRECT_RX = True"
| "direct_reg r = False"


text \<open>
  The critical-section property of a trace: no event that touches the bus controller
  happened with interrupts enabled.
\<close>

definition in_critical_section :: "bool \<times> event \<Rightarrow> bool" where
  "in_critical_section p = (touches_bus (snd p) \<longrightarrow> \<not> fst p)"


text \<open>The accesses of direct mode: reads and writes of the three direct-mode registers.\<close>

fun direct_ev :: "event \<Rightarrow> bool" where
  "direct_ev (Read r v) = direct_reg r"
| "direct_ev (Write r v) = direct_reg r"
| "direct_ev ev = False"

text \<open>
  The invariant inside a critical section, for a property \<open>P\<close> of trace entries:
  interrupts are disabled and every entry of the trace has \<open>P\<close>.
\<close>

definition cs_inv :: "(bool \<times> event \<Rightarrow> bool) \<Rightarrow> machine \<Rightarrow> bool" where
  "cs_inv P s = (\<not> irq s \<and> list_all P (trace s))"




text \<open>
  Values for the SDK's constants, as the RP2350 hardware headers give them, and two
  devices that answer at once, for running the model: one returns the id bytes 0x5D and
  0x40, the other 0xFF throughout.
\<close>

definition rp2350_sdk :: sdk where
  "rp2350_sdk =
     \<lparr>QMI_DIRECT_CSR_CLKDIV_LSB = 22,
      QMI_DIRECT_CSR_EN_BITS = 0x1,
      QMI_DIRECT_CSR_BUSY_BITS = 0x2,
      QMI_DIRECT_CSR_ASSERT_CS1N_BITS = 0x8,
      QMI_DIRECT_CSR_TXEMPTY_BITS = 0x800,
      QMI_DIRECT_TX_OE_BITS = 0x80000,
      QMI_DIRECT_TX_IWIDTH_VALUE_Q = 2,
      QMI_DIRECT_TX_IWIDTH_LSB = 16,
      QMI_M1_TIMING_PAGEBREAK_VALUE_1024 = 2,
      QMI_M1_TIMING_PAGEBREAK_LSB = 28,
      QMI_M1_TIMING_COOLDOWN_LSB = 30,
      QMI_M1_TIMING_RXDELAY_LSB = 8,
      QMI_M1_TIMING_MAX_SELECT_LSB = 17,
      QMI_M1_TIMING_MIN_DESELECT_LSB = 12,
      QMI_M1_TIMING_CLKDIV_LSB = 0,
      QMI_M1_RFMT_PREFIX_WIDTH_VALUE_Q = 2,
      QMI_M1_RFMT_PREFIX_WIDTH_LSB = 0,
      QMI_M1_RFMT_ADDR_WIDTH_VALUE_Q = 2,
      QMI_M1_RFMT_ADDR_WIDTH_LSB = 2,
      QMI_M1_RFMT_SUFFIX_WIDTH_VALUE_Q = 2,
      QMI_M1_RFMT_SUFFIX_WIDTH_LSB = 4,
      QMI_M1_RFMT_DUMMY_WIDTH_VALUE_Q = 2,
      QMI_M1_RFMT_DUMMY_WIDTH_LSB = 6,
      QMI_M1_RFMT_DUMMY_LEN_VALUE_24 = 6,
      QMI_M1_RFMT_DUMMY_LEN_LSB = 16,
      QMI_M1_RFMT_DATA_WIDTH_VALUE_Q = 2,
      QMI_M1_RFMT_DATA_WIDTH_LSB = 8,
      QMI_M1_RFMT_PREFIX_LEN_VALUE_8 = 1,
      QMI_M1_RFMT_PREFIX_LEN_LSB = 12,
      QMI_M1_RFMT_SUFFIX_LEN_VALUE_NONE = 0,
      QMI_M1_RFMT_SUFFIX_LEN_LSB = 14,
      QMI_M1_WFMT_PREFIX_WIDTH_VALUE_Q = 2,
      QMI_M1_WFMT_PREFIX_WIDTH_LSB = 0,
      QMI_M1_WFMT_ADDR_WIDTH_VALUE_Q = 2,
      QMI_M1_WFMT_ADDR_WIDTH_LSB = 2,
      QMI_M1_WFMT_SUFFIX_WIDTH_VALUE_Q = 2,
      QMI_M1_WFMT_SUFFIX_WIDTH_LSB = 4,
      QMI_M1_WFMT_DUMMY_WIDTH_VALUE_Q = 2,
      QMI_M1_WFMT_DUMMY_WIDTH_LSB = 6,
      QMI_M1_WFMT_DUMMY_LEN_VALUE_NONE = 0,
      QMI_M1_WFMT_DUMMY_LEN_LSB = 16,
      QMI_M1_WFMT_DATA_WIDTH_VALUE_Q = 2,
      QMI_M1_WFMT_DATA_WIDTH_LSB = 8,
      QMI_M1_WFMT_PREFIX_LEN_VALUE_8 = 1,
      QMI_M1_WFMT_PREFIX_LEN_LSB = 12,
      QMI_M1_WFMT_SUFFIX_LEN_VALUE_NONE = 0,
      QMI_M1_WFMT_SUFFIX_LEN_LSB = 14,
      XIP_CTRL_WRITABLE_M1_BITS = 0x800,
      GPIO_FUNC_XIP_CS1 = 9\<rparr>"

definition psram_8mb_hw :: hw where
  "psram_8mb_hw =
     \<lparr>clk_sys_hz = 150000000,
      csr_val = (\<lambda>k. 0x800),
      rx_val = (\<lambda>k. if k = 6 then 0x5D else if k = 7 then 0x40 else 0),
      xip_ctrl_val = 0\<rparr>"


definition boot_state :: machine where
  "boot_state = \<lparr>irq = True, csr_reads = 0, rx_reads = 0, trace = []\<rparr>"

subsection \<open>The test table and the correctness pass (lines 294 to 335 and 419 to 454)\<close>

text \<open>
  A test descriptor, the struct \<^verbatim>\<open>memory_test_config\<close>. Field \<^verbatim>\<open>x\<close> of the struct is
  \<open>cfg_x\<close> here: the plain names are the parameters of \<^verbatim>\<open>memory_test\<close>. The buffer
  is a pointer, a 32-bit address.
\<close>

record memory_test_config =
  cfg_buffer :: "32 word"
  cfg_buffer_size :: "32 word"
  cfg_loop_scale :: int
  cfg_read :: bool
  cfg_random :: bool
  cfg_test_name :: string
  cfg_result :: "64 word"

definition TEST_SIZE :: "32 word" where "TEST_SIZE = 16 * 1024"
definition LOOP_SCALE :: int where "LOOP_SCALE = 200"
definition PSRAM_LOCATION :: "32 word" where "PSRAM_LOCATION = 0x11000000"
definition PSRAM_LOCATION_NOCAHE :: "32 word" where "PSRAM_LOCATION_NOCAHE = 0x14000000"

text \<open>
  The table \<^verbatim>\<open>s_memory_test_config\<close>. The addresses of the arrays \<^verbatim>\<open>s_test_memory\<close>
  and \<^verbatim>\<open>s_testROM\<close> are the linker's choice and so are arguments.
\<close>

definition s_memory_test_config :: "32 word \<Rightarrow> 32 word \<Rightarrow> memory_test_config list" where
  "s_memory_test_config s_test_memory s_testROM =
     (let entry = (\<lambda>b rd rn name.
            \<lparr>cfg_buffer = b, cfg_buffer_size = TEST_SIZE, cfg_loop_scale = LOOP_SCALE,
             cfg_read = rd, cfg_random = rn, cfg_test_name = name, cfg_result = 0\<rparr>)
      in [entry s_test_memory True False ''SEQ SRAM READ'',
          entry s_testROM True False ''SEQ ROM READ'',
          entry PSRAM_LOCATION True False ''SEQ PSRAM READ'',
          entry PSRAM_LOCATION_NOCAHE True False ''SEQ PSRAM NOCACHE READ'',
          entry s_test_memory True True ''RND SRAM READ'',
          entry s_testROM True True ''RND ROM READ'',
          entry PSRAM_LOCATION True True ''RND PSRAM READ'',
          entry PSRAM_LOCATION_NOCAHE True True ''RND PSRAM NOCACHE READ'',
          entry s_test_memory False False ''SEQ SRAM WRITE'',
          entry PSRAM_LOCATION False False ''SEQ PSRAM WRITE'',
          entry PSRAM_LOCATION_NOCAHE False False ''SEQ PSRAM NOCACHE WRITE'',
          entry s_test_memory False True ''RND SRAM WRITE'',
          entry PSRAM_LOCATION False True ''RND PSRAM WRITE'',
          entry PSRAM_LOCATION_NOCAHE False True ''RND PSRAM NOCACHE WRITE''])"

text \<open>
  The inner loop of \<^verbatim>\<open>test_mem\<close> (lines 430 to 438): write the pattern to word
  \<open>x\<close>, read the word back, stop at the first mismatch. What a store does to memory
  and what a load returns depend on the region, so the memory \<open>'m\<close> and its two
  operations are arguments. Word \<open>x\<close> of the buffer is at address \<open>buffer + 4 * x\<close>.
\<close>

function check_words ::
  "(32 word \<Rightarrow> 32 word \<Rightarrow> 'm \<Rightarrow> 'm) \<Rightarrow> (32 word \<Rightarrow> 'm \<Rightarrow> 32 word)
     \<Rightarrow> 32 word \<Rightarrow> 32 word \<Rightarrow> nat \<Rightarrow> 'm \<Rightarrow> bool \<times> 'm" where
  "check_words store load buffer buffer_size x m =
     (if x < unat buffer_size then
        let a = buffer + 4 * of_nat x;
            m' = store a 0xDEADBEEF m
        in if load a m' \<noteq> 0xDEADBEEF then (False, m')
           else check_words store load buffer buffer_size (Suc x) m'
      else (True, m))"
  by pat_completeness auto
termination
  by (relation "measure (\<lambda>(store, load, buffer, buffer_size, x, m). unat buffer_size - x)") auto

text \<open>The body of the outer loop for one descriptor (lines 423 to 452): the line it prints.\<close>

definition test_mem_entry ::
  "(32 word \<Rightarrow> 32 word \<Rightarrow> 'm \<Rightarrow> 'm) \<Rightarrow> (32 word \<Rightarrow> 'm \<Rightarrow> 32 word)
     \<Rightarrow> memory_test_config \<Rightarrow> 'm \<Rightarrow> line \<times> 'm" where
  "test_mem_entry store load cfg m =
     (if cfg_buffer cfg < 0x10000000 \<or> cfg_buffer cfg \<ge> 0x10000000 then
        (case check_words store load (cfg_buffer cfg) (cfg_buffer_size cfg) 0 m of
           (result, m') \<Rightarrow>
             (if result then PassedMemTest (cfg_test_name cfg)
              else FailedMemTest (cfg_test_name cfg), m'))
      else (SkippedMemTest (cfg_test_name cfg), m))"

text \<open>\<^verbatim>\<open>test_mem\<close>: the lines printed for the descriptors of a table, in order.\<close>

fun test_mem_table ::
  "(32 word \<Rightarrow> 32 word \<Rightarrow> 'm \<Rightarrow> 'm) \<Rightarrow> (32 word \<Rightarrow> 'm \<Rightarrow> 32 word)
     \<Rightarrow> memory_test_config list \<Rightarrow> 'm \<Rightarrow> line list \<times> 'm" where
  "test_mem_table store load [] m = ([], m)"
| "test_mem_table store load (cfg # cfgs) m =
     (case test_mem_entry store load cfg m of
        (l, m') \<Rightarrow> (case test_mem_table store load cfgs m' of (ls, m'') \<Rightarrow> (l # ls, m'')))"

definition test_mem ::
  "(32 word \<Rightarrow> 32 word \<Rightarrow> 'm \<Rightarrow> 'm) \<Rightarrow> (32 word \<Rightarrow> 'm \<Rightarrow> 32 word)
     \<Rightarrow> 32 word \<Rightarrow> 32 word \<Rightarrow> 'm \<Rightarrow> line list \<times> 'm" where
  "test_mem store load s_test_memory s_testROM m =
     test_mem_table store load (s_memory_test_config s_test_memory s_testROM) m"

text \<open>
  A memory for running the pass: a map from addresses to words in which the stores to
  the flash window \<open>0x10000000 .. 0x10FFFFFF\<close> are lost, as in a read-only region.
\<close>

definition rom_store :: "32 word \<Rightarrow> 32 word \<Rightarrow> (32 word \<Rightarrow> 32 word) \<Rightarrow> (32 word \<Rightarrow> 32 word)" where
  "rom_store a v m = (if 0x10000000 \<le> a \<and> a < 0x11000000 then m else m(a := v))"

definition mem_load :: "32 word \<Rightarrow> (32 word \<Rightarrow> 32 word) \<Rightarrow> 32 word" where
  "mem_load a m = m a"

section \<open>Properties\<close>

subsection \<open>Arithmetic helpers\<close>

lemma i32_id: "- 2147483648 \<le> x \<Longrightarrow> x < 2147483648 \<Longrightarrow> i32 x = x"
  by (simp add: i32_def signed_take_bit_int_eq_self)

lemma sdiv_nonneg: "0 \<le> (a::int) \<Longrightarrow> 0 \<le> b \<Longrightarrow> a sdiv b = a div b"
  by (auto simp: signed_divide_int_def sgn_if)

lemma div_add_small:
  fixes b q r :: int
  assumes "0 \<le> r" "r < b"
  shows "(b * q + r) div b = q"
proof -
  have "b \<noteq> 0" using assms by auto
  then have "(b * q + r) div b = q + r div b" by (rule div_mult_self4)
  moreover have "r div b = 0" using assms by (simp add: div_pos_pos_trivial)
  ultimately show ?thesis by (simp only: add_0_right)
qed

lemma ceil_div_int:
  fixes a b :: int
  assumes "0 < b"
  shows "(a + b - 1) div b = - ((- a) div b)"
proof -
  define q where "q = a div b"
  define r where "r = a mod b"
  have a: "a = b * q + r" by (simp add: q_def r_def)
  have r: "0 \<le> r" "r < b" using assms by (auto simp: r_def)
  show ?thesis
  proof (cases "r = 0")
    case True
    have "a + b - 1 = b * q + (b - 1)" by (simp add: a True)
    moreover have "(b * q + (b - 1)) div b = q" using assms by (intro div_add_small) auto
    ultimately have 1: "(a + b - 1) div b = q" by (simp only:)
    have "(- a) div b = - q"
      using True assms by (simp add: zdiv_zminus1_eq_if q_def r_def)
    with 1 show ?thesis by simp
  next
    case False
    have "a + b - 1 = b * (q + 1) + (r - 1)" by (simp add: a algebra_simps)
    moreover have "(b * (q + 1) + (r - 1)) div b = q + 1"
      using r False by (intro div_add_small) auto
    ultimately have 1: "(a + b - 1) div b = q + 1" by (simp only:)
    have "(- a) div b = - q - 1"
      using False assms by (simp add: zdiv_zminus1_eq_if q_def r_def)
    with 1 show ?thesis by simp
  qed
qed

lemma ceil_div_real:
  fixes a b :: int
  assumes "0 < b"
  shows "(a + b - 1) div b = \<lceil>real_of_int a / real_of_int b\<rceil>"
  using ceil_div_int [OF assms] by (simp add: ceiling_divide_eq_div)

subsection \<open>Device capacity\<close>

text \<open>
  C5. For every extended id byte the capacity is 1 MiB times a multiplier read off the
  top three bits (the byte divided by 32): 8 when they are 2 or the byte is 0x26, 1 when
  they are 0, 4 when they are 1, and 1 again for every other value. In particular
  0x00 gives 1 MiB, 0x20 gives 4 MiB, 0x40 and 0x26 give 8 MiB.
\<close>

theorem psram_size_of_multiplier:
  "unat (psram_size_of eid) =
     1048576 * (if unat eid = 0x26 \<or> unat eid div 32 = 2 then 8
                else if unat eid div 32 = 0 then 1
                else if unat eid div 32 = 1 then 4
                else 1)
   \<and> psram_size_of 0x00 = 1048576
   \<and> psram_size_of 0x20 = 4 * 1048576
   \<and> psram_size_of 0x40 = 8 * 1048576
   \<and> psram_size_of 0x26 = 8 * 1048576"
proof -
  have a: "(eid = 0x26) = (unat eid = 0x26)"
    by (simp add: word_unat_eq_iff)
  have b: "(drop_bit 5 eid = 2) = (unat eid div 32 = 2)"
    by (simp add: word_unat_eq_iff drop_bit_eq_div unat_div)
  have c: "(drop_bit 5 eid = 0) = (unat eid div 32 = 0)"
    by (simp add: word_unat_eq_iff drop_bit_eq_div unat_div)
  have d: "(drop_bit 5 eid = 1) = (unat eid div 32 = 1)"
    by (simp add: word_unat_eq_iff drop_bit_eq_div unat_div)
  have "unat (psram_size_of eid) =
     1048576 * (if unat eid = 0x26 \<or> unat eid div 32 = 2 then 8
                else if unat eid div 32 = 0 then 1
                else if unat eid div 32 = 1 then 4
                else 1)"
    unfolding psram_size_of_def Let_def a b c d by simp
  moreover have "psram_size_of 0x00 = 1048576" by (simp add: psram_size_of_def)
  moreover have "psram_size_of 0x20 = 4 * 1048576"
    by (simp add: psram_size_of_def drop_bit_eq_div)
  moreover have "psram_size_of 0x40 = 8 * 1048576"
    by (simp add: psram_size_of_def drop_bit_eq_div)
  moreover have "psram_size_of 0x26 = 8 * 1048576" by (simp add: psram_size_of_def)
  ultimately show ?thesis by blast
qed

subsection \<open>Clock divider\<close>

lemma clockDivider_of_in_range:
  assumes "0 < clock_hz" "0 < max_freq" "clock_hz + max_freq < 2147483648"
  shows "clockDivider_of max_freq clock_hz =
           (let ideal = (clock_hz + max_freq - 1) div max_freq
            in if ideal = 1 \<and> clock_hz > 100000000 then 2 else ideal)"
proof -
  have 1: "i32 (clock_hz + max_freq) = clock_hz + max_freq"
    using assms by (intro i32_id) auto
  have 2: "i32 (clock_hz + max_freq - 1) = clock_hz + max_freq - 1"
    using assms by (intro i32_id) auto
  have 3: "(clock_hz + max_freq - 1) sdiv max_freq = (clock_hz + max_freq - 1) div max_freq"
    using assms by (intro sdiv_nonneg) auto
  have "0 \<le> (clock_hz + max_freq - 1) div max_freq"
    using assms by (simp add: pos_imp_zdiv_nonneg_iff)
  moreover have "(clock_hz + max_freq - 1) div max_freq \<le> clock_hz + max_freq - 1"
    using assms by (intro int_div_le_self) auto
  ultimately have 4: "i32 ((clock_hz + max_freq - 1) div max_freq) = (clock_hz + max_freq - 1) div max_freq"
    using assms by (intro i32_id) auto
  show ?thesis
    by (simp only: clockDivider_of_def 1 2 3 4)
qed

lemma clockDivider_150MHz: "clockDivider_of max_psram_freq 150000000 = 2"
  by (simp add: clockDivider_of_def max_psram_freq_def i32_def
      signed_take_bit_eq_take_bit_minus take_bit_eq_mod bit_iff_odd)

lemma clockDivider_of_bounds:
  assumes "0 < clock_hz" "clock_hz \<le> 2014483647"
  shows "1 \<le> clockDivider_of max_psram_freq clock_hz" "clockDivider_of max_psram_freq clock_hz \<le> 16"
proof -
  let ?ideal = "(clock_hz + 133000000 - 1) div 133000000"
  have eq: "clockDivider_of max_psram_freq clock_hz =
              (if ?ideal = 1 \<and> clock_hz > 100000000 then 2 else ?ideal)"
    using clockDivider_of_in_range [of clock_hz max_psram_freq] assms
    by (simp add: max_psram_freq_def Let_def)
  have "133000000 div 133000000 \<le> ?ideal"
    using assms by (intro zdiv_mono1) auto
  then have lo: "1 \<le> ?ideal" by simp
  have "?ideal \<le> (2014483647 + 133000000 - 1) div 133000000"
    using assms by (intro zdiv_mono1) auto
  then have hi: "?ideal \<le> 16" by simp
  show "1 \<le> clockDivider_of max_psram_freq clock_hz" using eq lo by auto
  show "clockDivider_of max_psram_freq clock_hz \<le> 16" using eq hi by auto
qed

text \<open>
  C3, as amended. For every system clock and device limit that are positive and whose
  sum fits a 32-bit \<^verbatim>\<open>int\<close> (with the source's limit of 133 MHz: a clock of at
  most 2,014,483,647 Hz), the divider is the ceiling of clock over limit, except that a
  ceiling of 1 with a clock above 100 MHz gives 2. The divider is at least 1 and the
  divided clock is at most the limit, in the forced branch too. A clock of 150 MHz with
  the limit of 133 MHz gives 2, which is the ceiling itself.
\<close>

theorem clockDivider_of_ceiling:
  assumes "0 < clock_hz" "0 < max_freq" "clock_hz + max_freq < 2147483648"
  shows "clockDivider_of max_freq clock_hz =
           (if \<lceil>real_of_int clock_hz / real_of_int max_freq\<rceil> = 1 \<and> clock_hz > 100000000 then 2
            else \<lceil>real_of_int clock_hz / real_of_int max_freq\<rceil>)
         \<and> 1 \<le> clockDivider_of max_freq clock_hz
         \<and> real_of_int clock_hz / real_of_int (clockDivider_of max_freq clock_hz)
             \<le> real_of_int max_freq
         \<and> clockDivider_of max_psram_freq 150000000 = 2
         \<and> \<lceil>real_of_int 150000000 / real_of_int max_psram_freq\<rceil> = 2"
proof -
  define ideal where "ideal = \<lceil>real_of_int clock_hz / real_of_int max_freq\<rceil>"
  have ideal: "(clock_hz + max_freq - 1) div max_freq = ideal"
    unfolding ideal_def using assms(2) by (rule ceil_div_real)
  have eq: "clockDivider_of max_freq clock_hz =
              (if ideal = 1 \<and> clock_hz > 100000000 then 2 else ideal)"
    using clockDivider_of_in_range [OF assms] by (simp add: ideal Let_def)
  have "0 < real_of_int clock_hz / real_of_int max_freq" using assms by simp
  then have pos: "1 \<le> ideal" unfolding ideal_def by (simp only: one_le_ceiling)
  have up: "real_of_int clock_hz \<le> real_of_int ideal * real_of_int max_freq"
    unfolding ideal_def using assms(2) ceiling_divide_upper [of "real_of_int max_freq" "real_of_int clock_hz"]
    by simp
  have ge: "ideal \<le> clockDivider_of max_freq clock_hz" using eq by auto
  have one: "1 \<le> clockDivider_of max_freq clock_hz" using pos ge by linarith
  have "real_of_int ideal * real_of_int max_freq
          \<le> real_of_int (clockDivider_of max_freq clock_hz) * real_of_int max_freq"
    using ge assms(2) by (intro mult_right_mono) auto
  with up have "real_of_int clock_hz
          \<le> real_of_int (clockDivider_of max_freq clock_hz) * real_of_int max_freq" by linarith
  then have quot: "real_of_int clock_hz / real_of_int (clockDivider_of max_freq clock_hz)
             \<le> real_of_int max_freq"
    using one by (simp add: divide_le_eq mult.commute)
  note ex = clockDivider_150MHz
  have ex2: "\<lceil>real_of_int 150000000 / real_of_int max_psram_freq\<rceil> = 2"
    unfolding max_psram_freq_def by (simp only: ceiling_divide_eq_div)
  show ?thesis using eq one quot ex ex2 unfolding ideal_def by blast
qed

theorem clockDivider_of_ceiling_witness:
  "clockDivider_of 133000000 100000001 = 2 \<and> \<lceil>real_of_int 100000001 / real_of_int 133000000\<rceil> = 1"
  using clockDivider_of_ceiling [of 100000001 133000000] by simp

text \<open>
  The claim as first stated, for every positive clock, fails where the clock does not
  fit: \<^verbatim>\<open>clock_get_hz\<close> returns a \<^verbatim>\<open>uint32_t\<close> that the source stores in an
  \<^verbatim>\<open>int\<close>, so 3,000,000,000 Hz is read as a negative number and the divider is -8,
  not the ceiling 23.
\<close>

theorem clockDivider_overflow_counterexample:
  "0 < unat (3000000000 :: 32 word)
   \<and> clockDivider_of max_psram_freq (sint (3000000000 :: 32 word)) = - 8
   \<and> \<lceil>real (unat (3000000000 :: 32 word)) / real_of_int max_psram_freq\<rceil> = 23"
  by (simp add: clockDivider_of_def max_psram_freq_def i32_def
      signed_take_bit_eq_take_bit_minus take_bit_eq_mod bit_iff_odd)

subsection \<open>Minimum deselect window\<close>

lemma clock_period_bounds:
  assumes "469598 \<le> clock_hz" "clock_hz \<le> 2014483647"
  shows "496404 \<le> (1000000000000000::int) div clock_hz"
    and "(1000000000000000::int) div clock_hz \<le> 2129480960"
proof -
  have "(1000000000000000::int) div 2014483647 \<le> (1000000000000000::int) div clock_hz"
    using assms by (intro zdiv_mono2) auto
  then show "496404 \<le> 1000000000000000 div clock_hz" by simp
  have "(1000000000000000::int) div clock_hz \<le> (1000000000000000::int) div 469598"
    using assms by (intro zdiv_mono2) auto
  then show "1000000000000000 div clock_hz \<le> 2129480960" by simp
qed

text \<open>
  C4, as amended. For every system clock from 469,598 Hz to 2,014,483,647 Hz (the
  clocks for which the period in femtoseconds, 10^15 div clock, and the sums the source
  forms all fit a 32-bit \<^verbatim>\<open>int\<close>), the timing derivation succeeds and the minimum
  deselect window is the ceiling of 18,000,000 fs over the period, minus
  (clockDivider + 1) div 2.
\<close>

theorem minDeselect_formula:
  assumes "469598 \<le> clock_hz" "clock_hz \<le> 2014483647"
  shows "\<exists>t. derive_timing clock_hz = Some t
           \<and> clockDivider t = clockDivider_of max_psram_freq clock_hz
           \<and> minDeselect t =
               \<lceil>real_of_int 18000000 / real_of_int (1000000000000000 div clock_hz)\<rceil>
                 - (clockDivider t + 1) div 2"
proof -
  define d where "d = clockDivider_of max_psram_freq clock_hz"
  define p where "p = 1000000000000000 div clock_hz"
  define q where "q = (18000000 + p - 1) div p"
  have c: "0 < clock_hz" using assms by simp
  have d: "1 \<le> d" "d \<le> 16"
    unfolding d_def using clockDivider_of_bounds [OF c assms(2)] by auto
  have p: "496404 \<le> p" "p \<le> 2129480960"
    unfolding p_def using clock_period_bounds [OF assms] by auto
  have p0: "1000000000000000 sdiv clock_hz = p"
    unfolding p_def using c by (intro sdiv_nonneg) auto
  have p1: "i32 p = p" using p by (intro i32_id) auto
  have p2: "i32 (p - 1) = p - 1" using p by (intro i32_id) auto
  have s0: "18 * 1000000 + (p - 1) = 18000000 + p - 1" by simp
  have s1: "i32 (18000000 + p - 1) = 18000000 + p - 1" using p by (intro i32_id) auto
  have s2: "(18000000 + p - 1) sdiv p = q"
    unfolding q_def using p by (intro sdiv_nonneg) auto
  have "0 \<le> q" unfolding q_def using p by (simp add: pos_imp_zdiv_nonneg_iff)
  moreover have "q \<le> (18000000 + p - 1) div 496404"
    unfolding q_def using p by (intro zdiv_mono2) auto
  moreover have "(18000000 + p - 1) div 496404 \<le> (18000000 + 2129480960 - 1) div 496404"
    using p by (intro zdiv_mono1) auto
  ultimately have q: "0 \<le> q" "q \<le> 4326" by auto
  have q1: "i32 q = q" using q by (intro i32_id) auto
  have h1: "i32 (d + 1) = d + 1" using d by (intro i32_id) auto
  have h2: "(d + 1) sdiv 2 = (d + 1) div 2" using d by (intro sdiv_nonneg) auto
  have hb: "0 \<le> (d + 1) div 2" "(d + 1) div 2 \<le> 8" using d by auto
  have h3: "i32 ((d + 1) div 2) = (d + 1) div 2" using hb by (intro i32_id) auto
  have r: "i32 (q - (d + 1) div 2) = q - (d + 1) div 2" using q hb by (intro i32_id) auto
  have qc: "q = \<lceil>real_of_int 18000000 / real_of_int p\<rceil>"
    unfolding q_def using p by (intro ceil_div_real) auto
  have md: "i32 (i32 (i32 (18 * 1000000 + i32 (p - 1)) sdiv p) - i32 (i32 (d + 1) sdiv 2))
              = q - (d + 1) div 2"
    unfolding p2 s0 s1 s2 q1 h1 h2 h3 r by (rule refl)
  have nz: "d \<noteq> 0" "clock_hz \<noteq> 0" "p \<noteq> 0" using d c p by auto
  have "derive_timing clock_hz =
          Some \<lparr>clockDivider = d,
                rxdelay = (if i32 (clock_hz sdiv d) > 100000000 then i32 (d + 1) else d),
                maxSelect = i32 ((125 * 1000000) sdiv p),
                minDeselect = q - (d + 1) div 2\<rparr>"
    unfolding derive_timing_def Let_def d_def [symmetric] p0 p1 md
    using nz by simp
  then show ?thesis unfolding d_def [symmetric] p_def [symmetric] qc by simp
qed

theorem minDeselect_formula_witness:
  "\<exists>t. derive_timing 150000000 = Some t \<and> clockDivider t = 2 \<and> minDeselect t = 2"
  using minDeselect_formula [of 150000000] clockDivider_150MHz
  by (auto simp add: ceiling_divide_eq_div)

text \<open>
  Below that range the claim as first stated fails: at 375,000 Hz the period
  2,666,666,666 fs does not fit the \<^verbatim>\<open>int\<close> it is stored in, the stored value is
  negative, and the source computes -1 where the formula gives 0.
\<close>

theorem minDeselect_low_clock_counterexample:
  "\<exists>t. derive_timing 375000 = Some t 
     \<and> minDeselect t = - 1 
     \<and> \<lceil>real_of_int 18000000 / real_of_int (1000000000000000 div 375000)\<rceil>
                 - (clockDivider t + 1) div 2 = 0"
  by (simp add: derive_timing_def clockDivider_of_def max_psram_freq_def i32_def
      signed_take_bit_eq_take_bit_minus take_bit_eq_mod bit_iff_odd signed_divide_int_def
      ceiling_divide_eq_div)

subsection \<open>The benchmark loops\<close>

declare rnd_read_pass.simps [simp del]
declare rnd_write_pass.simps [simp del]
declare seq_read_pass.simps [simp del]
declare seq_write_pass.simps [simp del]

lemma index_in_range:
  fixes seed n :: "32 word"
  assumes "0 < unat n"
  shows "unat (seed AND (n - 1)) < unat n"
proof -
  have "seed AND (n - 1) \<le> n - 1" by (rule word_and_le1)
  then have "unat (seed AND (n - 1)) \<le> unat (n - 1)" by (simp add: word_le_nat_alt)
  moreover have "n \<noteq> 0" using assms by auto
  then have "unat (n - 1) = unat n - 1" by (rule unat_minus_one)
  ultimately show ?thesis using assms by linarith
qed

lemma lcg_index_sequence_append:
  "lcg_index_sequence seed n (a + b) =
     lcg_index_sequence seed n a @ lcg_index_sequence (lcg_seed seed a) n b"
  by (induction a arbitrary: seed) (simp_all add: Let_def)

lemma lcg_seed_add: "lcg_seed seed (a + b) = lcg_seed (lcg_seed seed a) b"
  by (induction a arbitrary: seed) simp_all

lemma length_lcg_index_sequence: "length (lcg_index_sequence seed n N) = N"
  by (induction N arbitrary: seed) (simp_all add: Let_def)

lemma lcg_index_sequence_in_range:
  "0 < unat n \<Longrightarrow> i \<in> set (lcg_index_sequence seed n N) \<Longrightarrow> i < unat n"
  by (induction N arbitrary: seed) (auto simp: Let_def index_in_range)

lemma rnd_read_pass_result:
  assumes "unat n \<le> length (buf s)"
  shows "\<exists>s'. rnd_read_pass n i s = Inr s' \<and> buf s' = buf s
           \<and> touched s' = touched s @ lcg_index_sequence (seed_value s) n (unat n - i)
           \<and> seed_value s' = lcg_seed (seed_value s) (unat n - i)"
  using assms
proof (induction n i s rule: rnd_read_pass.induct)
  case (1 n i s)
  show ?case
  proof (cases "i < unat n")
    case False
    then show ?thesis by (simp add: rnd_read_pass.simps [of n i s])
  next
    case True
    define seed where "seed = seed_value s * 1103515245 + 12345"
    define idx where "idx = unat (seed AND (n - 1))"
    have idx: "idx < length (buf s)"
      using index_in_range [of n seed] True "1.prems" by (simp add: idx_def)
    define s1 where "s1 = s\<lparr>seed_value := seed, val := val s + buf s ! idx,
                     touched := touched s @ [idx]\<rparr>"
    have step: "rnd_read_pass n i s = rnd_read_pass n (Suc i) s1"
      using True idx
      by (simp add: rnd_read_pass.simps [of n i s] Let_def seed_def [symmetric]
          idx_def [symmetric] s1_def)
    have "unat n \<le> length (buf s1)" using "1.prems" by (simp add: s1_def)
    from "1.IH" [OF True seed_def idx_def idx, folded s1_def, OF this]
    obtain s' where s': "rnd_read_pass n (Suc i) s1 = Inr s'" "buf s' = buf s1"
      "touched s' = touched s1 @ lcg_index_sequence (seed_value s1) n (unat n - Suc i)"
      "seed_value s' = lcg_seed (seed_value s1) (unat n - Suc i)" by blast
    have k: "unat n - i = Suc (unat n - Suc i)" using True by simp
    show ?thesis
      using s' step
      by (simp add: k Let_def s1_def seed_def idx_def)
  qed
qed


lemma rnd_write_pass_result:
  assumes "unat n \<le> length (buf s)"
  shows "\<exists>s'. rnd_write_pass n i s = Inr s' \<and> length (buf s') = length (buf s)
           \<and> touched s' = touched s @ lcg_index_sequence (seed_value s) n (unat n - i)
           \<and> seed_value s' = lcg_seed (seed_value s) (unat n - i)"
  using assms
proof (induction n i s rule: rnd_write_pass.induct)
  case (1 n i s)
  show ?case
  proof (cases "i < unat n")
    case False
    then show ?thesis by (simp add: rnd_write_pass.simps [of n i s])
  next
    case True
    define seed where "seed = seed_value s * 1103515245 + 12345"
    define idx where "idx = unat (seed AND (n - 1))"
    have idx: "idx < length (buf s)"
      using index_in_range [of n seed] True "1.prems" by (simp add: idx_def)
    define s1 where "s1 = s\<lparr>seed_value := seed, buf := (buf s)[idx := val s],
                     val := val s + 1, touched := touched s @ [idx]\<rparr>"
    have step: "rnd_write_pass n i s = rnd_write_pass n (Suc i) s1"
      using True idx
      by (simp add: rnd_write_pass.simps [of n i s] Let_def seed_def [symmetric]
          idx_def [symmetric] s1_def)
    have "unat n \<le> length (buf s1)" using "1.prems" by (simp add: s1_def)
    from "1.IH" [OF True seed_def idx_def idx, folded s1_def, OF this]
    obtain s' where s': "rnd_write_pass n (Suc i) s1 = Inr s'"
      "length (buf s') = length (buf s1)"
      "touched s' = touched s1 @ lcg_index_sequence (seed_value s1) n (unat n - Suc i)"
      "seed_value s' = lcg_seed (seed_value s1) (unat n - Suc i)" by blast
    have k: "unat n - i = Suc (unat n - Suc i)" using True by simp
    show ?thesis
      using s' step
      by (simp add: k Let_def s1_def seed_def idx_def)
  qed
qed

lemma seq_read_pass_result:
  assumes "unat n \<le> length (buf s)"
  shows "\<exists>s'. seq_read_pass n i s = Inr s' \<and> buf s' = buf s
           \<and> touched s' = touched s @ [i..<unat n]"
  using assms
proof (induction n i s rule: seq_read_pass.induct)
  case (1 n i s)
  show ?case
  proof (cases "i < unat n")
    case False
    then show ?thesis by (simp add: seq_read_pass.simps [of n i s])
  next
    case True
    have idx: "i < length (buf s)" using True "1.prems" by simp
    define s1 where "s1 = s\<lparr>val := val s + buf s ! i, touched := touched s @ [i]\<rparr>"
    have step: "seq_read_pass n i s = seq_read_pass n (Suc i) s1"
      using True idx by (simp add: seq_read_pass.simps [of n i s] s1_def)
    have "unat n \<le> length (buf s1)" using "1.prems" by (simp add: s1_def)
    from "1.IH" [OF True idx, folded s1_def, OF this]
    obtain s' where s': "seq_read_pass n (Suc i) s1 = Inr s'" "buf s' = buf s1"
      "touched s' = touched s1 @ [Suc i..<unat n]" by blast
    show ?thesis
      using s' step True by (simp add: s1_def upt_conv_Cons)
  qed
qed

lemma seq_write_pass_result:
  assumes "unat n \<le> length (buf s)"
  shows "\<exists>s'. seq_write_pass n i s = Inr s' \<and> length (buf s') = length (buf s)
           \<and> val s' = val s + of_nat (unat n - i)
           \<and> (\<forall>j < length (buf s). buf s' ! j =
                 (if i \<le> j \<and> j < unat n then val s + of_nat (j - i) else buf s ! j))
           \<and> touched s' = touched s @ [i..<unat n]"
  using assms
proof (induction n i s rule: seq_write_pass.induct)
  case (1 n i s)
  show ?case
  proof (cases "i < unat n")
    case False
    then show ?thesis by (auto simp add: seq_write_pass.simps [of n i s])
  next
    case True
    have idx: "i < length (buf s)" using True "1.prems" by simp
    define s1 where "s1 = s\<lparr>buf := (buf s)[i := val s], val := val s + 1,
                  touched := touched s @ [i]\<rparr>"
    have step: "seq_write_pass n i s = seq_write_pass n (Suc i) s1"
      using True idx by (simp add: seq_write_pass.simps [of n i s] s1_def)
    have "unat n \<le> length (buf s1)" using "1.prems" by (simp add: s1_def)
    from "1.IH" [OF True idx, folded s1_def, OF this]
    obtain s' where s': "seq_write_pass n (Suc i) s1 = Inr s'"
      "length (buf s') = length (buf s1)"
      "val s' = val s1 + of_nat (unat n - Suc i)"
      "\<forall>j < length (buf s1). buf s' ! j =
         (if Suc i \<le> j \<and> j < unat n then val s1 + of_nat (j - Suc i) else buf s1 ! j)"
      "touched s' = touched s1 @ [Suc i..<unat n]" by blast
    have k: "unat n - i = Suc (unat n - Suc i)" using True by simp
    have words: "\<forall>j < length (buf s). buf s' ! j =
                 (if i \<le> j \<and> j < unat n then val s + of_nat (j - i) else buf s ! j)"
    proof (intro allI impI)
      fix j assume j: "j < length (buf s)"
      then have "buf s' ! j =
         (if Suc i \<le> j \<and> j < unat n then val s1 + of_nat (j - Suc i) else buf s1 ! j)"
        using s'(4) by (simp add: s1_def)
      then show "buf s' ! j =
                 (if i \<le> j \<and> j < unat n then val s + of_nat (j - i) else buf s ! j)"
        using j True idx
        by (cases "j = i") (auto simp: s1_def Suc_diff_le Suc_le_eq)
    qed
    show ?thesis
      using s'(1,2,3,5) step True words by (simp add: s1_def k upt_conv_Cons)
  qed
qed

lemma passes_invariant:
  assumes step: "\<And>k s. I k s \<Longrightarrow> \<exists>s'. body s = Inr s' \<and> I (Suc k) s'"
    and init: "I k s"
  shows "\<exists>s'. passes body m s = Inr s' \<and> I (k + m) s'"
  using init
proof (induction m arbitrary: k s)
  case 0
  then show ?case by simp
next
  case (Suc m)
  from step [OF Suc.prems] obtain s1 where s1: "body s = Inr s1" "I (Suc k) s1" by blast
  from Suc.IH [OF s1(2)] obtain s' where "passes body m s1 = Inr s'" "I (Suc k + m) s'"
    by blast
  then show ?case using s1 by simp
qed

lemma rnd_passes_result:
  assumes "unat n \<le> length (buf s)"
  shows "\<exists>s'. passes (if read then rnd_read_pass n 0 else rnd_write_pass n 0) m s = Inr s'
           \<and> length (buf s') = length (buf s)
           \<and> touched s' = touched s @ lcg_index_sequence (seed_value s) n (m * unat n)"
proof -
  define I where "I = (\<lambda>k (s'::bench). length (buf s') = length (buf s)
      \<and> touched s' = touched s @ lcg_index_sequence (seed_value s) n (k * unat n)
      \<and> seed_value s' = lcg_seed (seed_value s) (k * unat n))"
  have step: "\<exists>s''. (if read then rnd_read_pass n 0 else rnd_write_pass n 0) s' = Inr s''
                 \<and> I (Suc k) s''" if "I k s'" for k s'
  proof -
    have len: "unat n \<le> length (buf s')" using that assms by (simp add: I_def)
    have add: "Suc k * unat n = k * unat n + unat n" by simp
    show ?thesis
    proof (cases read)
      case True
      from rnd_read_pass_result [OF len, of 0] show ?thesis
        using that True
        by (auto simp: I_def lcg_index_sequence_append lcg_seed_add add simp del: mult_Suc)
    next
      case False
      from rnd_write_pass_result [OF len, of 0] show ?thesis
        using that False
        by (auto simp: I_def lcg_index_sequence_append lcg_seed_add add simp del: mult_Suc)
    qed
  qed
  have "I 0 s" by (simp add: I_def)
  from passes_invariant [where I = I and k = 0 and m = m
      and body = "if read then rnd_read_pass n 0 else rnd_write_pass n 0", OF step this]
  show ?thesis by (auto simp: I_def)
qed

lemma seq_passes_touched:
  assumes "unat n \<le> length (buf s)" "\<forall>i\<in>set (touched s). i < unat n"
  shows "\<exists>s'. passes (if read then seq_read_pass n 0 else seq_write_pass n 0) m s = Inr s'
           \<and> (\<forall>i\<in>set (touched s'). i < unat n)"
proof -
  define I where "I = (\<lambda>(k::nat) (s'::bench). length (buf s') = length (buf s)
      \<and> (\<forall>i\<in>set (touched s'). i < unat n))"
  have step: "\<exists>s''. (if read then seq_read_pass n 0 else seq_write_pass n 0) s' = Inr s''
                 \<and> I (Suc k) s''" if "I k s'" for k s'
  proof -
    have len: "unat n \<le> length (buf s')" using that assms by (simp add: I_def)
    show ?thesis
    proof (cases read)
      case True
      from seq_read_pass_result [OF len, of 0] show ?thesis
        using that True by (auto simp: I_def)
    next
      case False
      from seq_write_pass_result [OF len, of 0] show ?thesis
        using that False by (auto simp: I_def)
    qed
  qed
  have "I 0 s" using assms by (simp add: I_def)
  from passes_invariant [where I = I and k = 0 and m = m
      and body = "if read then seq_read_pass n 0 else seq_write_pass n 0", OF step this]
  show ?thesis by (auto simp: I_def)
qed

lemma store_s_value_fields [simp]:
  "touched (store_s_value sv s) = touched s"
  "val (store_s_value sv s) = val s"
  "seed_value (store_s_value sv s) = seed_value s"
  "length (buf (store_s_value sv s)) = length (buf s)"
  by (simp_all add: store_s_value_def split: option.splits)

lemma store_s_value_buf:
  "i < length (buf s) \<Longrightarrow>
     buf (store_s_value sv s) ! i = (if sv = Some i then val s else buf s ! i)"
  by (auto simp: store_s_value_def split: option.splits)


lemma memory_test_rnd_touched:
  assumes "unat n \<le> length b"
  shows "\<exists>d s. memory_test b n loop_scale read True sv start finish = Inr (d, s)
           \<and> touched s = lcg_index_sequence 0xDEADBEEF n (nat (loop_count_of loop_scale) * unat n)"
proof -
  let ?s0 = "\<lparr>buf = b, val = 0, seed_value = 0xDEADBEEF, touched = []\<rparr>"
  have "unat n \<le> length (buf ?s0)" using assms by simp
  from rnd_passes_result [OF this, of read "nat (loop_count_of loop_scale)"]
  show ?thesis by (auto simp: memory_test_def)
qed




lemma seq_write_passes_result:
  assumes "length (buf s) = unat n" "val s = 0"
  shows "\<exists>s'. passes (seq_write_pass n 0) m s = Inr s'
           \<and> length (buf s') = unat n
           \<and> val s' = of_nat (m * unat n)
           \<and> (0 < m \<longrightarrow> (\<forall>j < unat n. buf s' ! j = of_nat ((m - 1) * unat n + j)))"
proof -
  define I where "I = (\<lambda>k (s'::bench). length (buf s') = unat n
      \<and> val s' = of_nat (k * unat n)
      \<and> (0 < k \<longrightarrow> (\<forall>j < unat n. buf s' ! j = of_nat ((k - 1) * unat n + j))))"
  have step: "\<exists>s''. seq_write_pass n 0 s' = Inr s'' \<and> I (Suc k) s''" if "I k s'" for k s'
  proof -
    have len: "unat n \<le> length (buf s')" using that by (simp add: I_def)
    from seq_write_pass_result [OF len, of 0] obtain s'' where
      s'': "seq_write_pass n 0 s' = Inr s''" "length (buf s'') = length (buf s')"
        "val s'' = val s' + of_nat (unat n)"
        "\<forall>j < length (buf s'). buf s'' ! j = (if j < unat n then val s' + of_nat j else buf s' ! j)"
      by auto
    have "I (Suc k) s''"
      using that s''(2,3,4) by (simp add: I_def algebra_simps)
    then show ?thesis using s''(1) by blast
  qed
  have "I 0 s" using assms by (simp add: I_def)
  from passes_invariant [where I = I and k = 0 and m = m
      and body = "seq_write_pass n 0", OF step this]
  show ?thesis by (auto simp: I_def)
qed

lemma memory_test_seq_write_words:
  assumes "length buffer = unat buffer_size" "1 \<le> loop_count_of loop_scale"
  shows "\<exists>d s. memory_test buffer buffer_size loop_scale False False sv start finish = Inr (d, s)
      \<and> length (buf s) = unat buffer_size
      \<and> (\<forall>i < unat buffer_size.
            buf s ! i =
              (if sv = Some i then of_nat (nat (loop_count_of loop_scale) * unat buffer_size)
               else of_nat ((nat (loop_count_of loop_scale) - 1) * unat buffer_size + i)))"
proof -
  let ?s0 = "\<lparr>buf = buffer, val = 0, seed_value = 0xDEADBEEF, touched = []\<rparr>"
  have "length (buf ?s0) = unat buffer_size" "val ?s0 = 0" using assms by simp_all
  from seq_write_passes_result [OF this, of "nat (loop_count_of loop_scale)"]
  obtain s' where s': "passes (seq_write_pass buffer_size 0) (nat (loop_count_of loop_scale)) ?s0 = Inr s'"
    "length (buf s') = unat buffer_size"
    "val s' = of_nat (nat (loop_count_of loop_scale) * unat buffer_size)"
    "\<forall>j < unat buffer_size.
        buf s' ! j = of_nat ((nat (loop_count_of loop_scale) - 1) * unat buffer_size + j)"
    using assms(2) by auto
  have "memory_test buffer buffer_size loop_scale False False sv start finish
          = Inr (finish - start, store_s_value sv s')"
    using s'(1) by (simp add: memory_test_def)
  moreover have "\<forall>i < unat buffer_size.
            buf (store_s_value sv s') ! i =
              (if sv = Some i then of_nat (nat (loop_count_of loop_scale) * unat buffer_size)
               else of_nat ((nat (loop_count_of loop_scale) - 1) * unat buffer_size + i))"
    using s'(2,3,4) by (simp add: store_s_value_buf del: of_nat_add of_nat_mult)
  ultimately show ?thesis using s'(2) by auto
qed



lemma loop_count_of_1: "loop_count_of 1 = 100"
  by (simp add: loop_count_of_def i32_def signed_take_bit_eq_take_bit_minus take_bit_eq_mod bit_iff_odd)

lemma loop_count_of_3303821: "loop_count_of 3303821 = 330382100"
  by (simp add: loop_count_of_def i32_def signed_take_bit_eq_take_bit_minus take_bit_eq_mod bit_iff_odd)

lemma loop_count_of_21474837: "loop_count_of 21474837 = - 2147483596"
  by (simp add: loop_count_of_def i32_def signed_take_bit_eq_take_bit_minus take_bit_eq_mod bit_iff_odd)

lemma loop_count_of_in_range:
  "1 \<le> 100 * loop_scale \<Longrightarrow> 100 * loop_scale \<le> 2147483647 \<Longrightarrow>
     loop_count_of loop_scale = 100 * loop_scale"
  unfolding loop_count_of_def by (rule i32_id) auto

lemma take_lcg_index_sequence:
  assumes "N \<le> M"
  shows "take N (lcg_index_sequence seed n M) = lcg_index_sequence seed n N"
proof -
  have "M = N + (M - N)" using assms by simp
  then have "lcg_index_sequence seed n M =
      lcg_index_sequence seed n N @ lcg_index_sequence (lcg_seed seed N) n (M - N)"
    using lcg_index_sequence_append [of seed n N "M - N"] by simp
  then show ?thesis by (simp add: length_lcg_index_sequence)
qed

text \<open>
  C6. The index sequence of the random modes is deterministic. Two calls of
  \<^verbatim>\<open>memory_test\<close> in random mode with the same size and loop scale, on any two
  buffers with at least that many words, reading or writing, at any times, with
  \<^verbatim>\<open>s_value\<close> inside or outside the buffer, access the same indices in the same
  order. The sequence has \<open>loop_count * sizeWords\<close> indices, and for every \<open>N\<close> up to
  that number its first \<open>N\<close> indices are those the specification's generator yields
  from the seed 0xDEADBEEF in \<open>N\<close> steps. This holds for every size, a power of two or
  not.
\<close>

theorem lcg_index_sequence_deterministic:
  assumes "unat sizeWords \<le> length b1" "unat sizeWords \<le> length b2"
  shows "\<exists>d1 s1 d2 s2.
     memory_test b1 sizeWords loop_scale r1 True a1 t1 u1 = Inr (d1, s1) \<and>
     memory_test b2 sizeWords loop_scale r2 True a2 t2 u2 = Inr (d2, s2) \<and>
     touched s2 = touched s1 \<and>
     length (touched s1) = nat (loop_count_of loop_scale) * unat sizeWords \<and>
     (\<forall>N. N \<le> length (touched s1) \<longrightarrow>
          take N (touched s1) = lcg_index_sequence 0xDEADBEEF sizeWords N)"
  using memory_test_rnd_touched [OF assms(1), of loop_scale r1 a1 t1 u1]
    memory_test_rnd_touched [OF assms(2), of loop_scale r2 a2 t2 u2]
  by (auto simp: take_lcg_index_sequence length_lcg_index_sequence)

theorem lcg_index_sequence_deterministic_witness:
  "\<exists>d1 s1 d2 s2.
     memory_test [0, 0, 0, 0] (4 :: 32 word) 1 True True None 0 1 = Inr (d1, s1) \<and>
     memory_test [1, 2, 3, 4] (4 :: 32 word) 1 False True (Some 2) 5 9 = Inr (d2, s2) \<and>
     touched s2 = touched s1 \<and>
     length (touched s1) = 400 \<and>
     take 3 (touched s1) = lcg_index_sequence 0xDEADBEEF 4 3"
proof -
  have h1: "unat (4 :: 32 word) \<le> length [0, 0, 0, 0 :: 32 word]" by simp
  have h2: "unat (4 :: 32 word) \<le> length [1, 2, 3, 4 :: 32 word]" by simp
  from lcg_index_sequence_deterministic [OF h1 h2, of 1 True None 0 1 False "Some 2" 5 9]
  show ?thesis by (auto simp: loop_count_of_1)
qed

text \<open>
  C8. For every buffer size of at least 1 (every power of two among them) and a buffer
  with at least that many words, every index \<open>seed AND (buffer_size - 1)\<close> is below
  \<open>buffer_size\<close>, and \<^verbatim>\<open>memory_test\<close> completes in each of its four modes
  without an access out of bounds: every index it touches is below \<open>buffer_size\<close>.
\<close>

theorem memory_test_in_bounds:
  assumes "0 < unat buffer_size" "unat buffer_size \<le> length buffer"
  shows "(\<forall>seed. unat (seed AND (buffer_size - 1)) < unat buffer_size)
       \<and> (\<exists>d s. memory_test buffer buffer_size loop_scale read rnd s_value_at start finish
                    = Inr (d, s)
             \<and> (\<forall>i\<in>set (touched s). i < unat buffer_size))"
proof (cases rnd)
  case True
  from memory_test_rnd_touched [OF assms(2), of loop_scale read s_value_at start finish]
  show ?thesis using True assms(1) by (auto simp: index_in_range lcg_index_sequence_in_range)
next
  case False
  let ?s0 = "\<lparr>buf = buffer, val = 0, seed_value = 0xDEADBEEF, touched = []\<rparr>"
  have "unat buffer_size \<le> length (buf ?s0)" "\<forall>i\<in>set (touched ?s0). i < unat buffer_size"
    using assms by simp_all
  from seq_passes_touched [OF this, of read "nat (loop_count_of loop_scale)"]
  show ?thesis using False assms(1) by (auto simp: memory_test_def index_in_range)
qed

theorem memory_test_in_bounds_witness:
  "(\<forall>seed. unat (seed AND ((4 :: 32 word) - 1)) < unat (4 :: 32 word))
       \<and> (\<exists>d s. memory_test [0, 0, 0, 0] 4 1 False True None 0 1 = Inr (d, s)
             \<and> list_all (\<lambda>i. i < unat (4 :: 32 word)) (touched s))"
proof -
  have h1: "0 < unat (4 :: 32 word)" by simp
  have h2: "unat (4 :: 32 word) \<le> length [0, 0, 0, 0 :: 32 word]" by simp
  show ?thesis using memory_test_in_bounds [OF h1 h2, of 1 False True None 0 1]
    by (simp add: list_all_iff)
qed




text \<open>
  C10, as amended. After a sequential write on a buffer of \<open>n \<ge> 1\<close> words with
  \<open>loop_count = 100 * loop_scale\<close> at least 1 and at most 2,147,483,647 (so that it
  fits the \<^verbatim>\<open>int\<close> it is computed in), every word \<open>i\<close> of the buffer other than the
  global \<^verbatim>\<open>s_value\<close> is \<open>((loop_count - 1) * n + i) mod 2^32\<close>, and the word that is
  \<^verbatim>\<open>s_value\<close>, when the buffer contains it, is \<open>(loop_count * n) mod 2^32\<close>. So a
  buffer that does not contain \<^verbatim>\<open>s_value\<close> holds consecutive 32-bit counter values, each
  word its predecessor plus one modulo \<open>2^32\<close>, and they are strictly increasing when
  the counter does not wrap around inside the final pass, that is when
  \<open>((loop_count - 1) * n) mod 2^32 + n \<le> 2^32\<close>.
\<close>

theorem seq_write_final_pass:
  assumes "length buffer = unat buffer_size" "0 < unat buffer_size"
    "1 \<le> 100 * loop_scale" "100 * loop_scale \<le> 2147483647"
  shows "\<exists>d s. memory_test buffer buffer_size loop_scale False False s_value_at start finish
                  = Inr (d, s)
      \<and> length (buf s) = unat buffer_size
      \<and> (\<forall>i < unat buffer_size. s_value_at \<noteq> Some i \<longrightarrow>
            unat (buf s ! i) = ((nat (100 * loop_scale) - 1) * unat buffer_size + i) mod 2 ^ 32)
      \<and> (\<forall>i < unat buffer_size. s_value_at = Some i \<longrightarrow>
            unat (buf s ! i) = (nat (100 * loop_scale) * unat buffer_size) mod 2 ^ 32)
      \<and> (\<forall>i. Suc i < unat buffer_size \<and> s_value_at \<noteq> Some i \<and> s_value_at \<noteq> Some (Suc i)
            \<longrightarrow> buf s ! Suc i = buf s ! i + 1)
      \<and> (((nat (100 * loop_scale) - 1) * unat buffer_size) mod 2 ^ 32
             + unat buffer_size \<le> 2 ^ 32
           \<longrightarrow> (\<forall>i j. i < j \<and> j < unat buffer_size
                    \<and> s_value_at \<noteq> Some i \<and> s_value_at \<noteq> Some j
                  \<longrightarrow> buf s ! i < buf s ! j))"
proof -
  have lc: "loop_count_of loop_scale = 100 * loop_scale"
    using assms(3,4) by (rule loop_count_of_in_range)
  have lc1: "1 \<le> loop_count_of loop_scale" using lc assms(3) by simp
  define base where "base = (nat (100 * loop_scale) - 1) * unat buffer_size"
  from memory_test_seq_write_words [OF assms(1) lc1, of s_value_at start finish]
  obtain d s where r: "memory_test buffer buffer_size loop_scale False False s_value_at start finish
                         = Inr (d, s)"
    "length (buf s) = unat buffer_size"
    and w0: "\<forall>i < unat buffer_size.
            buf s ! i =
              (if s_value_at = Some i then of_nat (nat (100 * loop_scale) * unat buffer_size)
               else of_nat (base + i))"
    unfolding base_def lc by blast
  have w: "buf s ! i = of_nat (base + i)" if "i < unat buffer_size" "s_value_at \<noteq> Some i" for i
    using w0 that by simp
  have v: "unat (buf s ! i) = (nat (100 * loop_scale) * unat buffer_size) mod 2 ^ 32"
    if "i < unat buffer_size" "s_value_at = Some i" for i
    using w0 that by (simp add: unat_of_nat del: of_nat_mult)
  have u: "unat (buf s ! i) = (base + i) mod 2 ^ 32"
    if "i < unat buffer_size" "s_value_at \<noteq> Some i" for i
    using w [OF that] by (simp add: unat_of_nat del: of_nat_add)
  have c: "buf s ! Suc i = buf s ! i + 1"
    if "Suc i < unat buffer_size" "s_value_at \<noteq> Some i" "s_value_at \<noteq> Some (Suc i)" for i
    using w [of i] w [of "Suc i"] that by simp
  have m: "buf s ! i < buf s ! j"
    if "base mod 2 ^ 32 + unat buffer_size \<le> 2 ^ 32" "i < j" "j < unat buffer_size"
      "s_value_at \<noteq> Some i" "s_value_at \<noteq> Some j" for i j
  proof -
    have "(base + k) mod 2 ^ 32 = base mod 2 ^ 32 + k" if "k < unat buffer_size" for k
    proof -
      have "(base + k) mod 2 ^ 32 = (base mod 2 ^ 32 + k) mod 2 ^ 32"
        by (simp add: mod_add_left_eq)
      also have "\<dots> = base mod 2 ^ 32 + k"
        using that \<open>base mod 2 ^ 32 + unat buffer_size \<le> 2 ^ 32\<close> by (intro mod_less) linarith
      finally show ?thesis .
    qed
    then have "unat (buf s ! i) = base mod 2 ^ 32 + i" "unat (buf s ! j) = base mod 2 ^ 32 + j"
      using u that by auto
    then show ?thesis using that by (simp add: word_less_nat_alt)
  qed
  show ?thesis using r u v c m unfolding base_def by blast
qed

theorem seq_write_final_pass_witness:
  "(\<exists>d s. memory_test [0, 0] (2 :: 32 word) 1 False False None 0 1 = Inr (d, s)
      \<and> unat (buf s ! 0) = 198 \<and> unat (buf s ! 1) = 199 \<and> buf s ! 0 < buf s ! 1)
   \<and> (\<exists>d s. memory_test [0, 0] (2 :: 32 word) 1 False False (Some 1) 0 1 = Inr (d, s)
      \<and> unat (buf s ! 0) = 198 \<and> unat (buf s ! 1) = 200)"
proof -
  have h1: "length [0, 0 :: 32 word] = unat (2 :: 32 word)" by simp
  have h2: "0 < unat (2 :: 32 word)" by simp
  have h3: "(1 :: int) \<le> 100 * 1" by simp
  have h4: "(100 :: int) * 1 \<le> 2147483647" by simp
  have a: "\<exists>d s. memory_test [0, 0] (2 :: 32 word) 1 False False None 0 1 = Inr (d, s)
      \<and> unat (buf s ! 0) = 198 \<and> unat (buf s ! 1) = 199 \<and> buf s ! 0 < buf s ! 1"
  proof -
    from seq_write_final_pass [OF h1 h2 h3 h4, of None 0 1]
    obtain d s where r: "memory_test [0, 0] (2 :: 32 word) 1 False False None 0 1 = Inr (d, s)"
      and u: "\<forall>i < unat (2 :: 32 word). None \<noteq> Some i \<longrightarrow> unat (buf s ! i) =
                ((nat (100 * 1) - 1) * unat (2 :: 32 word) + i) mod 2 ^ 32"
      and m: "((nat (100 * 1) - 1) * unat (2 :: 32 word)) mod 2 ^ 32
               + unat (2 :: 32 word) \<le> 2 ^ 32
             \<longrightarrow> (\<forall>i j. i < j \<and> j < unat (2 :: 32 word) \<and> None \<noteq> Some i \<and> None \<noteq> Some j
                     \<longrightarrow> buf s ! i < buf s ! j)"
      by blast
    have "unat (buf s ! 0) = 198" using u [rule_format, of 0] by simp
    moreover have "unat (buf s ! 1) = 199" using u [rule_format, of 1] by simp
    moreover have "buf s ! 0 < buf s ! 1" using m [rule_format, of 0 1] by simp
    ultimately show ?thesis using r by blast
  qed
  have b: "\<exists>d s. memory_test [0, 0] (2 :: 32 word) 1 False False (Some 1) 0 1 = Inr (d, s)
      \<and> unat (buf s ! 0) = 198 \<and> unat (buf s ! 1) = 200"
  proof -
    from seq_write_final_pass [OF h1 h2 h3 h4, of "Some 1" 0 1]
    obtain d s where r: "memory_test [0, 0] (2 :: 32 word) 1 False False (Some 1) 0 1 = Inr (d, s)"
      and u: "\<forall>i < unat (2 :: 32 word). Some (1::nat) \<noteq> Some i \<longrightarrow> unat (buf s ! i) =
                ((nat (100 * 1) - 1) * unat (2 :: 32 word) + i) mod 2 ^ 32"
      and v: "\<forall>i < unat (2 :: 32 word). Some (1::nat) = Some i \<longrightarrow> unat (buf s ! i) =
                (nat (100 * 1) * unat (2 :: 32 word)) mod 2 ^ 32"
      by blast
    have "unat (buf s ! 0) = 198" using u [rule_format, of 0] by simp
    moreover have "unat (buf s ! 1) = 200" using v [rule_format, of 1] by simp
    ultimately show ?thesis using r by blast
  qed
  show ?thesis using a b by blast
qed

text \<open>
  The claim as first stated fails in three ways. With 13 words and a loop scale of
  3,303,821 the final pass starts at \<open>2^32 - 9\<close>, so word 8 is 0xFFFFFFFF and word 9 is
  0: the values are not strictly increasing. When the one-word buffer is \<^verbatim>\<open>s_value\<close>
  itself and the loop scale is 1, the store after the loops leaves 100 in the word, not
  99. And with a loop scale of 21,474,837 the product \<open>100 * loop_scale\<close> is at least 1
  but does not fit the \<^verbatim>\<open>int\<close>: \<^verbatim>\<open>loop_count\<close> is negative, no pass runs and the
  buffer keeps its word 7.
\<close>

theorem seq_write_wraps_counterexample:
  "(\<exists>d s. memory_test (replicate 13 0) (13 :: 32 word) 3303821 False False None 0 0 = Inr (d, s)
      \<and> buf s ! 8 = 0xFFFFFFFF \<and> buf s ! 9 = 0 \<and> \<not> buf s ! 8 < buf s ! 9)
   \<and> (\<exists>d s. memory_test [0] (1 :: 32 word) 1 False False (Some 0) 0 0 = Inr (d, s)
      \<and> buf s ! 0 = 100 \<and> ((100 - 1) * 1 + 0) mod 2 ^ 32 = (99 :: nat))
   \<and> (\<exists>d s. memory_test [7] (1 :: 32 word) 21474837 False False None 0 0 = Inr (d, s)
      \<and> buf s = [7] \<and> (1 :: int) \<le> 100 * 21474837)"
proof -
  have a: "\<exists>d s. memory_test (replicate 13 0) (13 :: 32 word) 3303821 False False None 0 0 = Inr (d, s)
      \<and> buf s ! 8 = 0xFFFFFFFF \<and> buf s ! 9 = 0 \<and> \<not> buf s ! 8 < buf s ! 9"
  proof -
    have h1: "length (replicate 13 (0 :: 32 word)) = unat (13 :: 32 word)" by simp
    have h3: "1 \<le> loop_count_of 3303821" by (simp add: loop_count_of_3303821)
    from memory_test_seq_write_words [OF h1 h3, of None 0 0]
    obtain d s where r: "memory_test (replicate 13 0) (13 :: 32 word) 3303821 False False None 0 0
                           = Inr (d, s)"
      and w: "\<forall>i < unat (13 :: 32 word).
              buf s ! i = of_nat ((nat (loop_count_of 3303821) - 1) * unat (13 :: 32 word) + i)"
      by auto
    have x: "buf s ! 8 = 0xFFFFFFFF" using w [rule_format, of 8] by (simp add: loop_count_of_3303821)
    have y: "buf s ! 9 = 0" using w [rule_format, of 9] by (simp add: loop_count_of_3303821)
    show ?thesis using r x y by auto
  qed
  have b: "\<exists>d s. memory_test [0] (1 :: 32 word) 1 False False (Some 0) 0 0 = Inr (d, s)
      \<and> buf s ! 0 = 100 \<and> ((100 - 1) * 1 + 0) mod 2 ^ 32 = (99 :: nat)"
  proof -
    have h1: "length [0 :: 32 word] = unat (1 :: 32 word)" by simp
    have h3: "1 \<le> loop_count_of 1" by (simp add: loop_count_of_1)
    from memory_test_seq_write_words [OF h1 h3, of "Some 0" 0 0]
    obtain d s where r: "memory_test [0] (1 :: 32 word) 1 False False (Some 0) 0 0 = Inr (d, s)"
      and w: "\<forall>i < unat (1 :: 32 word).
              buf s ! i = (if Some (0::nat) = Some i
                 then of_nat (nat (loop_count_of 1) * unat (1 :: 32 word))
                 else of_nat ((nat (loop_count_of 1) - 1) * unat (1 :: 32 word) + i))"
      by blast
    have "buf s ! 0 = 100" using w [rule_format, of 0] by (simp add: loop_count_of_1)
    then show ?thesis using r by auto
  qed
  have c: "\<exists>d s. memory_test [7] (1 :: 32 word) 21474837 False False None 0 0 = Inr (d, s)
      \<and> buf s = [7] \<and> (1 :: int) \<le> 100 * 21474837"
    by (simp add: memory_test_def loop_count_of_21474837 store_s_value_def)
  show ?thesis using a b c by blast
qed

subsection \<open>The correctness pass\<close>

declare check_words.simps [simp del]

lemma test_mem_entry_line:
  "fst (test_mem_entry store load cfg m) = PassedMemTest (cfg_test_name cfg)
   \<or> fst (test_mem_entry store load cfg m) = FailedMemTest (cfg_test_name cfg)"
proof -
  have "cfg_buffer cfg < 0x10000000 \<or> cfg_buffer cfg \<ge> 0x10000000" by auto
  then show ?thesis
    by (auto simp: test_mem_entry_def split: prod.splits)
qed

lemma test_mem_table_lines:
  "l \<in> set (fst (test_mem_table store load cfgs m)) \<Longrightarrow>
     \<exists>cfg \<in> set cfgs. l = PassedMemTest (cfg_test_name cfg) \<or> l = FailedMemTest (cfg_test_name cfg)"
proof (induction cfgs arbitrary: m)
  case Nil
  then show ?case by simp
next
  case (Cons cfg cfgs)
  obtain l0 m' where e: "test_mem_entry store load cfg m = (l0, m')" by (cases "test_mem_entry store load cfg m")
  obtain ls m'' where t: "test_mem_table store load cfgs m' = (ls, m'')" by (cases "test_mem_table store load cfgs m'")
  from Cons.prems e t have "l = l0 \<or> l \<in> set ls" by simp
  then show ?case
  proof
    assume "l = l0"
    then show ?thesis using test_mem_entry_line [of store load cfg m] e by auto
  next
    assume "l \<in> set ls"
    then have "l \<in> set (fst (test_mem_table store load cfgs m'))" using t by simp
    from Cons.IH [OF this] show ?thesis by auto
  qed
qed

text \<open>
  C1. The claim is that the descriptors of the read-only region \<^verbatim>\<open>s_testROM\<close> are
  reported as skipped. The source does not do that: its guard
  \<^verbatim>\<open>buffer < 0x10000000 || buffer >= 0x10000000\<close> holds for every address, so the
  skip branch is never taken. Whatever the memory does and wherever the linker puts the
  arrays, \<^verbatim>\<open>test_mem\<close> prints no line "Skipped Mem Test"; and on a memory whose flash
  window drops stores, the descriptor "SEQ ROM READ" is written to, read back and
  reported as failed.
\<close>

theorem test_mem_never_skips:
  "SkippedMemTest name \<notin> set (fst (test_mem store load s_test_memory s_testROM m))
   \<and> test_mem_entry rom_store mem_load
        (s_memory_test_config 0x20000000 0x10004000 ! 1) (\<lambda>a. 0)
      = (FailedMemTest ''SEQ ROM READ'', (\<lambda>a. 0))"
proof -
  have "SkippedMemTest name \<notin> set (fst (test_mem store load s_test_memory s_testROM m))"
    unfolding test_mem_def using test_mem_table_lines by fastforce
  moreover have "test_mem_entry rom_store mem_load
        (s_memory_test_config 0x20000000 0x10004000 ! 1) (\<lambda>a. 0)
      = (FailedMemTest ''SEQ ROM READ'', (\<lambda>a. 0))"
    by (simp add: test_mem_entry_def s_memory_test_config_def check_words.simps [of _ _ _ _ 0]
        TEST_SIZE_def rom_store_def mem_load_def Let_def)
  ultimately show ?thesis by blast
qed

subsection \<open>Register accesses\<close>

declare read_id_loop.simps [simp del]
declare command_loop.simps [simp del]

lemma and_then_Done [simp]: "and_then (Done a s) f = f a s"
  by (simp add: and_then_def)

lemma and_then_Stopped [simp]: "and_then (Stopped w s) f = Stopped w s"
  by (simp add: and_then_def)

lemma final_and_then:
  "final (and_then r f) = (case r of Done a s \<Rightarrow> final (f a s) | Stopped w s \<Rightarrow> s)"
  by (cases r) simp_all

lemma log_ev_fields [simp]:
  "irq (log_ev ev s) = irq s"
  "csr_reads (log_ev ev s) = csr_reads s"
  "rx_reads (log_ev ev s) = rx_reads s"
  "trace (log_ev ev s) = trace s @ [(irq s, ev)]"
  by (simp_all add: log_ev_def)

lemma write_reg_fields [simp]:
  "irq (write_reg r v s) = irq s"
  "csr_reads (write_reg r v s) = csr_reads s"
  "rx_reads (write_reg r v s) = rx_reads s"
  "trace (write_reg r v s) = trace s @ [(irq s, Write r v)]"
  by (simp_all add: write_reg_def)

lemma read_csr_fields [simp]:
  "fst (read_csr e s) = csr_val e (csr_reads s)"
  "irq (snd (read_csr e s)) = irq s"
  "csr_reads (snd (read_csr e s)) = Suc (csr_reads s)"
  "rx_reads (snd (read_csr e s)) = rx_reads s"
  "trace (snd (read_csr e s)) = trace s @ [(irq s, Read DIRECT_CSR (csr_val e (csr_reads s)))]"
  by (simp_all add: read_csr_def Let_def)

lemma read_rx_fields [simp]:
  "fst (read_rx e s) = rx_val e (rx_reads s)"
  "irq (snd (read_rx e s)) = irq s"
  "csr_reads (snd (read_rx e s)) = csr_reads s"
  "rx_reads (snd (read_rx e s)) = Suc (rx_reads s)"
  "trace (snd (read_rx e s)) = trace s @ [(irq s, Read DIRECT_RX (rx_val e (rx_reads s)))]"
  by (simp_all add: read_rx_def Let_def)

lemma csr_set_bits_fields [simp]:
  "irq (csr_set_bits e b s) = irq s"
  "csr_reads (csr_set_bits e b s) = Suc (csr_reads s)"
  "rx_reads (csr_set_bits e b s) = rx_reads s"
  "trace (csr_set_bits e b s) =
     trace s @ [(irq s, Read DIRECT_CSR (csr_val e (csr_reads s))),
                (irq s, Write DIRECT_CSR (csr_val e (csr_reads s) OR b))]"
  by (simp_all add: csr_set_bits_def split_beta)

lemma csr_clear_bits_fields [simp]:
  "irq (csr_clear_bits e b s) = irq s"
  "csr_reads (csr_clear_bits e b s) = Suc (csr_reads s)"
  "rx_reads (csr_clear_bits e b s) = rx_reads s"
  "trace (csr_clear_bits e b s) =
     trace s @ [(irq s, Read DIRECT_CSR (csr_val e (csr_reads s))),
                (irq s, Write DIRECT_CSR (csr_val e (csr_reads s) AND NOT b))]"
  by (simp_all add: csr_clear_bits_def split_beta)

lemma in_critical_section_simps [simp]:
  "in_critical_section (False, ev)"
  "in_critical_section (b, GpioSetFunction pin fn)"
  "in_critical_section (b, Print l)"
  by (simp_all add: in_critical_section_def)

lemma save_and_disable_interrupts_simps [simp]:
  "fst (save_and_disable_interrupts s) = irq s"
  "irq (snd (save_and_disable_interrupts s)) = False"
  "csr_reads (snd (save_and_disable_interrupts s)) = csr_reads s"
  "rx_reads (snd (save_and_disable_interrupts s)) = rx_reads s"
  "trace (snd (save_and_disable_interrupts s)) = trace s"
  by (simp_all add: save_and_disable_interrupts_def)

lemma restore_interrupts_simps [simp]:
  "irq (restore_interrupts status s) = status"
  "csr_reads (restore_interrupts status s) = csr_reads s"
  "rx_reads (restore_interrupts status s) = rx_reads s"
  "trace (restore_interrupts status s) = trace s"
  by (simp_all add: restore_interrupts_def)

subsection \<open>The invariant of a critical section\<close>

lemma cs_wait_while_busy:
  assumes "cs_inv P s" "\<And>ev. direct_ev ev \<Longrightarrow> P (False, ev)"
  shows "cs_inv P (final (wait_while_busy fuel c e s))"
  using assms(1)
proof (induction fuel arbitrary: s)
  case 0
  then show ?case by simp
next
  case (Suc fuel)
  have "cs_inv P (snd (read_csr e s))"
    using Suc.prems assms(2) by (simp add: cs_inv_def)
  from Suc.IH [OF this] this show ?case
    by (simp add: split_beta)
qed

lemma cs_wait_until_txempty:
  assumes "cs_inv P s" "\<And>ev. direct_ev ev \<Longrightarrow> P (False, ev)"
  shows "cs_inv P (final (wait_until_txempty fuel c e s))"
  using assms(1)
proof (induction fuel arbitrary: s)
  case 0
  then show ?case by simp
next
  case (Suc fuel)
  have "cs_inv P (snd (read_csr e s))"
    using Suc.prems assms(2) by (simp add: cs_inv_def)
  from Suc.IH [OF this] this show ?case
    by (simp add: split_beta)
qed

lemma cs_and_then:
  assumes "cs_inv P (final r)" "\<And>a s. r = Done a s \<Longrightarrow> cs_inv P s \<Longrightarrow> cs_inv P (final (f a s))"
  shows "cs_inv P (final (and_then r f))"
  using assms by (cases r) simp_all

lemma cs_read_id_loop:
  assumes "cs_inv P s" "\<And>ev. direct_ev ev \<Longrightarrow> P (False, ev)"
  shows "cs_inv P (final (read_id_loop fuel c e i kgd eid s))"
  using assms(1)
proof (induction fuel c e i kgd eid s rule: read_id_loop.induct)
  case (1 fuel c e i kgd eid s)
  show ?case
  proof (cases "i < 7")
    case False
    then show ?thesis using "1.prems" by (simp add: read_id_loop.simps [of fuel c e i])
  next
    case True
    define s1 where "s1 = write_reg DIRECT_TX (if i = 0 then PSRAM_CMD_READ_ID else PSRAM_CMD_NOOP) s"
    have s1: "cs_inv P s1" using "1.prems" assms(2) by (simp add: s1_def cs_inv_def)
    have "cs_inv P (final (and_then (wait_until_txempty fuel c e s1) (\<lambda>_ s2.
           and_then (wait_while_busy fuel c e s2) (\<lambda>_ s3.
             case read_rx e s3 of
               (v, s4) \<Rightarrow>
                 read_id_loop fuel c e (Suc i)
                   (if i = 5 then ucast v else kgd)
                   (if i = 6 then ucast v else eid) s4))))"
    proof (rule cs_and_then)
      show "cs_inv P (final (wait_until_txempty fuel c e s1))"
        using s1 assms(2) by (rule cs_wait_until_txempty)
    next
      fix a s2
      assume w1: "wait_until_txempty fuel c e s1 = Done a s2" and s2: "cs_inv P s2"
      show "cs_inv P (final (and_then (wait_while_busy fuel c e s2) (\<lambda>_ s3.
             case read_rx e s3 of
               (v, s4) \<Rightarrow>
                 read_id_loop fuel c e (Suc i)
                   (if i = 5 then ucast v else kgd)
                   (if i = 6 then ucast v else eid) s4)))"
      proof (rule cs_and_then)
        show "cs_inv P (final (wait_while_busy fuel c e s2))"
          using s2 assms(2) by (rule cs_wait_while_busy)
      next
        fix b s3
        assume w2: "wait_while_busy fuel c e s2 = Done b s3" and s3: "cs_inv P s3"
        obtain v s4 where r: "read_rx e s3 = (v, s4)" by (cases "read_rx e s3")
        have s4: "cs_inv P s4"
          using s3 assms(2) r read_rx_fields [of e s3] by (simp add: cs_inv_def)
        from "1.IH" [OF True s1_def w1 w2 r [symmetric] s4]
        show "cs_inv P (final (case read_rx e s3 of
               (v, s4) \<Rightarrow>
                 read_id_loop fuel c e (Suc i)
                   (if i = 5 then ucast v else kgd)
                   (if i = 6 then ucast v else eid) s4))"
          by (simp add: r)
      qed
    qed
    then show ?thesis
      using True by (simp add: read_id_loop.simps [of fuel c e i] Let_def s1_def)
  qed
qed

lemma cs_read_id:
  assumes "cs_inv P s" "\<And>ev. direct_ev ev \<Longrightarrow> P (False, ev)"
  shows "cs_inv P (final (read_id fuel c e s))"
  unfolding read_id_def Let_def
  using assms
  by (intro cs_and_then cs_wait_while_busy cs_read_id_loop)
     (simp_all add: cs_inv_def split_beta)

lemma cs_command_loop:
  assumes "cs_inv P s" "\<And>ev. direct_ev ev \<Longrightarrow> P (False, ev)"
  shows "cs_inv P (final (command_loop fuel c e i s))"
  using assms(1)
proof (induction fuel c e i s rule: command_loop.induct)
  case (1 fuel c e i s)
  show ?case
  proof (cases "i < 4")
    case False
    then show ?thesis using "1.prems" by (simp add: command_loop.simps [of fuel c e i])
  next
    case True
    define s1 where "s1 = csr_set_bits e (QMI_DIRECT_CSR_ASSERT_CS1N_BITS c) s"
    define s2 where "s2 = write_reg DIRECT_TX
                   (if i = 0 then PSRAM_CMD_RSTEN
                    else if i = 1 then PSRAM_CMD_RST
                    else if i = 2 then PSRAM_CMD_QUAD_ENABLE
                    else PSRAM_CMD_LINEAR_TOGGLE) s1"
    have s2: "cs_inv P s2" using "1.prems" assms(2) by (simp add: s1_def s2_def cs_inv_def)
    have "cs_inv P (final (and_then (wait_while_busy fuel c e s2) (\<lambda>_ s3.
             let s4 = csr_clear_bits e (QMI_DIRECT_CSR_ASSERT_CS1N_BITS c) s3;
                 s5 = snd (read_rx e s4)
             in command_loop fuel c e (Suc i) s5)))"
    proof (rule cs_and_then)
      show "cs_inv P (final (wait_while_busy fuel c e s2))"
        using s2 assms(2) by (rule cs_wait_while_busy)
    next
      fix a s3
      assume w: "wait_while_busy fuel c e s2 = Done a s3" and s3: "cs_inv P s3"
      define s4 where "s4 = csr_clear_bits e (QMI_DIRECT_CSR_ASSERT_CS1N_BITS c) s3"
      define s5 where "s5 = snd (read_rx e s4)"
      have s5: "cs_inv P s5" using s3 assms(2) by (simp add: s4_def s5_def cs_inv_def)
      from "1.IH" [OF True s1_def s2_def w s4_def s5_def s5]
      show "cs_inv P (final (let s4 = csr_clear_bits e (QMI_DIRECT_CSR_ASSERT_CS1N_BITS c) s3;
                 s5 = snd (read_rx e s4)
             in command_loop fuel c e (Suc i) s5))"
        by (simp add: Let_def s4_def s5_def)
    qed
    then show ?thesis
      using True by (simp add: command_loop.simps [of fuel c e i] Let_def s1_def s2_def)
  qed
qed

lemma direct_ev_touches_bus: "direct_ev ev \<Longrightarrow> touches_bus ev"
  by (cases ev) simp_all

lemma cs_enable_quad_and_map:
  assumes "cs_inv P s" "\<And>ev. touches_bus ev \<Longrightarrow> P (False, ev)"
  shows "cs_inv P (final (enable_quad_and_map fuel c e t s))"
  unfolding enable_quad_and_map_def Let_def
  using assms direct_ev_touches_bus
  by (intro cs_and_then cs_wait_while_busy cs_command_loop)
     (simp_all add: cs_inv_def split_beta)

text \<open>
  \<^verbatim>\<open>setup_psram\<close> with its \<^verbatim>\<open>let\<close>s unfolded: the timing derivation, the first
  critical section, the check of the id, the second critical section.
\<close>

lemma setup_psram_unfold:
  "setup_psram fuel c e pin s =
     (case derive_timing (sint (clk_sys_hz e)) of
        None \<Rightarrow> Stopped DivideByZero (log_ev (GpioSetFunction pin (GPIO_FUNC_XIP_CS1 c)) s)
      | Some t \<Rightarrow>
          and_then
            (read_id fuel c e
               (snd (save_and_disable_interrupts
                  (log_ev (Print (TimingLine (maxSelect t) (minDeselect t) (clockDivider t)))
                     (log_ev (GpioSetFunction pin (GPIO_FUNC_XIP_CS1 c)) s)))))
            (\<lambda>(kgd, eid) s4.
               if kgd \<noteq> PSRAM_ID
               then Done 0 (log_ev (Print (InvalidPsramId kgd)) (restore_interrupts (irq s) s4))
               else and_then
                      (enable_quad_and_map fuel c e t
                         (snd (save_and_disable_interrupts
                            (log_ev (Print (ValidPsramId kgd)) (restore_interrupts (irq s) s4)))))
                      (\<lambda>_ s8. Done (psram_size_of eid)
                         (log_ev (Print (PsramIdLine kgd eid))
                            (restore_interrupts (irq s)
                               (write_reg XIP_CTRL (xip_ctrl_val e OR XIP_CTRL_WRITABLE_M1_BITS c)
                                  (log_ev (Read XIP_CTRL (xip_ctrl_val e)) s8)))))))"
  by (simp add: setup_psram_def Let_def split_beta split: option.splits cong: if_cong)

lemma derive_timing_150MHz:
  "derive_timing 150000000 = Some \<lparr>clockDivider = 2, rxdelay = 2, maxSelect = 18, minDeselect = 2\<rparr>"
  by (simp add: derive_timing_def clockDivider_of_def max_psram_freq_def i32_def
      signed_take_bit_eq_take_bit_minus take_bit_eq_mod bit_iff_odd signed_divide_int_def)

lemmas run_simps =
  setup_psram_unfold read_id_def enable_quad_and_map_def read_id_loop.simps command_loop.simps
  derive_timing_150MHz Let_def split_beta PSRAM_ID_def

lemma run_8mb:
  "(case setup_psram 1 rp2350_sdk psram_8mb_hw RP2350_XIP_CSI_PIN boot_state of
      Done sz s' \<Rightarrow> sz = 8388608 \<and> irq s' \<and> (False, Write M1_RCMD 0xEB) \<in> set (trace s')
        \<and> (True, Print (PsramIdLine 0x5D 0x40)) \<in> set (trace s')
    | Stopped w s' \<Rightarrow> False)"
  by (simp add: run_simps psram_8mb_hw_def rp2350_sdk_def boot_state_def psram_size_of_def
      PSRAM_CMD_QUAD_READ_def)

text \<open>
  C7. Every step of \<^verbatim>\<open>setup_psram\<close> that touches the bus controller (a read or a
  write of a register of the controller) runs with interrupts disabled: if the trace
  before the call has no such event with interrupts enabled, neither has the trace of
  the state in which the call ends, whether it returns, hangs in a polling loop (for every
  bound on the polls) or stops at a division by zero. And on every path on which the
  call returns, the early return on identification failure included, the interrupt flag
  is what it was before the call.
\<close>

theorem setup_psram_critical_section:
  assumes "list_all in_critical_section (trace s)"
  shows "list_all in_critical_section (trace (final (setup_psram fuel c e pin s)))
       \<and> (\<forall>sz s'. setup_psram fuel c e pin s = Done sz s' \<longrightarrow> irq s' = irq s)"
proof (cases "derive_timing (sint (clk_sys_hz e))")
  case None
  then show ?thesis using assms by (simp add: setup_psram_unfold)
next
  case (Some t)
  define s3 where "s3 = snd (save_and_disable_interrupts
                  (log_ev (Print (TimingLine (maxSelect t) (minDeselect t) (clockDivider t)))
                     (log_ev (GpioSetFunction pin (GPIO_FUNC_XIP_CS1 c)) s)))"
  have s3: "cs_inv in_critical_section s3" using assms by (simp add: s3_def cs_inv_def)
  have o1: "cs_inv in_critical_section (final (read_id fuel c e s3))"
    using s3 by (rule cs_read_id) simp
  show ?thesis
  proof (cases "read_id fuel c e s3")
    case (Stopped w s4)
    then show ?thesis
      using o1 Some by (simp add: setup_psram_unfold s3_def [symmetric] cs_inv_def)
  next
    case (Done ids s4)
    obtain kgd eid where ids: "ids = (kgd, eid)" by (cases ids)
    have s4: "cs_inv in_critical_section s4" using o1 Done by simp
    show ?thesis
    proof (cases "kgd = PSRAM_ID")
      case False
      then show ?thesis
        using s4 Some Done ids
        by (simp add: setup_psram_unfold s3_def [symmetric] cs_inv_def)
    next
      case True
      have Done': "read_id fuel c e s3 = Done (PSRAM_ID, eid) s4" using Done ids True by simp
      define s7 where "s7 = snd (save_and_disable_interrupts
                       (log_ev (Print (ValidPsramId PSRAM_ID)) (restore_interrupts (irq s) s4)))"
      have s7: "cs_inv in_critical_section s7" using s4 by (simp add: s7_def cs_inv_def)
      have o2: "cs_inv in_critical_section (final (enable_quad_and_map fuel c e t s7))"
        using s7 by (rule cs_enable_quad_and_map) simp
      show ?thesis
      proof (cases "enable_quad_and_map fuel c e t s7")
        case (Stopped w s8)
        then show ?thesis
          using o2 Some Done'
          by (simp add: setup_psram_unfold s3_def [symmetric] s7_def [symmetric] cs_inv_def)
      next
        case d2: (Done u s8)
        then show ?thesis
          using o2 Some Done'
          by (simp add: setup_psram_unfold s3_def [symmetric] s7_def [symmetric] cs_inv_def)
      qed
    qed
  qed
qed

theorem setup_psram_critical_section_witness:
  "list_all in_critical_section
     (trace (final (setup_psram 1 rp2350_sdk psram_8mb_hw RP2350_XIP_CSI_PIN boot_state)))
   \<and> (\<exists>s'. setup_psram 1 rp2350_sdk psram_8mb_hw RP2350_XIP_CSI_PIN boot_state = Done 8388608 s'
          \<and> irq s' = irq boot_state
          \<and> (False, Write M1_RCMD 0xEB) \<in> set (trace s'))"
proof -
  have h: "list_all in_critical_section (trace boot_state)" by (simp add: boot_state_def)
  from setup_psram_critical_section [OF h, of 1 rp2350_sdk psram_8mb_hw RP2350_XIP_CSI_PIN]
  show ?thesis using run_8mb by (auto split: outcome.splits)
qed

subsection \<open>Hardware that answers: the bring-up returns\<close>












end
